theory Spec2Isabelle
  imports Main
begin

section \<open>Python lists, exceptions and loops\<close>

text \<open>
  The program is \<^verbatim>\<open>chargepoint_demo.py\<close>: a Game of Life on a grid that grows and
  shrinks to keep a margin of dead rows and columns around the live cells.
  Exceptions are values of type \<open>error\<close>; a function that may raise returns
  \<open>error + 'a\<close> with \<open>Inl\<close> for the exception. The three \<^verbatim>\<open>BaseException\<close>s of
  \<^verbatim>\<open>Grid.__init__\<close> and the one of \<^verbatim>\<open>seedPattern\<close> are told apart by their message.
\<close>

datatype error =
    BadGridType
  | BadGridMargins
  | BadGridExtents
  | BadPatternLocation
  | IndexError
  | ValueError

definition bindE :: "error + 'a \<Rightarrow> ('a \<Rightarrow> error + 'b) \<Rightarrow> error + 'b" where
  "bindE m f = (case m of Inl e \<Rightarrow> Inl e | Inr x \<Rightarrow> f x)"

text \<open>Where a Python list of length \<open>len\<close> keeps index \<open>i\<close>: an index from \<open>-len\<close> up to
  \<open>-1\<close> counts from the end, and an index that is neither that nor in \<open>[0, len)\<close> has no
  position (the access raises IndexError).\<close>

definition py_index :: "nat \<Rightarrow> int \<Rightarrow> nat option" where
  "py_index len i =
     (if 0 \<le> i \<and> i < int len then Some (nat i)
      else if i < 0 \<and> - int len \<le> i then Some (nat (int len + i))
      else None)"

text \<open>\<^verbatim>\<open>xs[i]\<close>, \<^verbatim>\<open>xs[i] = v\<close> and \<^verbatim>\<open>xs.pop(i)\<close> (the popped element is never used by
  the program).\<close>

definition py_get :: "'a list \<Rightarrow> int \<Rightarrow> error + 'a" where
  "py_get xs i =
     (case py_index (length xs) i of None \<Rightarrow> Inl IndexError | Some k \<Rightarrow> Inr (xs ! k))"

definition py_set :: "'a list \<Rightarrow> int \<Rightarrow> 'a \<Rightarrow> error + 'a list" where
  "py_set xs i v =
     (case py_index (length xs) i of None \<Rightarrow> Inl IndexError | Some k \<Rightarrow> Inr (xs[k := v]))"

definition py_pop :: "'a list \<Rightarrow> int \<Rightarrow> error + 'a list" where
  "py_pop xs i =
     (case py_index (length xs) i of None \<Rightarrow> Inl IndexError
      | Some k \<Rightarrow> Inr (take k xs @ drop (Suc k) xs))"

text \<open>\<^verbatim>\<open>xs.insert(i, v)\<close>: never raises; the index is clamped to \<open>[0, len]\<close> after the
  negative ones were counted from the end.\<close>

definition py_insert :: "'a list \<Rightarrow> int \<Rightarrow> 'a \<Rightarrow> 'a list" where
  "py_insert xs i v =
     (let k = nat (if i < 0 then max 0 (int (length xs) + i) else min i (int (length xs)))
      in take k xs @ v # drop k xs)"

text \<open>\<^verbatim>\<open>range(n)\<close>, empty for \<open>n \<le> 0\<close>.\<close>

definition py_range :: "int \<Rightarrow> int list" where
  "py_range n = map int [0 ..< nat n]"

text \<open>\<^verbatim>\<open>for x in xs: body\<close> over a state that the body updates; an exception raised by
  the body leaves the loop.\<close>

fun forEach :: "'a list \<Rightarrow> ('a \<Rightarrow> 's \<Rightarrow> error + 's) \<Rightarrow> 's \<Rightarrow> error + 's" where
  "forEach [] body s = Inr s"
| "forEach (x # xs) body s =
     (case body x s of Inl e \<Rightarrow> Inl e | Inr s' \<Rightarrow> forEach xs body s')"

text \<open>\<^verbatim>\<open>list(filter(p, xs))\<close> and \<^verbatim>\<open>list(map(f, xs))\<close> where the function may raise.\<close>

fun filterE :: "('a \<Rightarrow> error + bool) \<Rightarrow> 'a list \<Rightarrow> error + 'a list" where
  "filterE p [] = Inr []"
| "filterE p (x # xs) =
     (case p x of Inl e \<Rightarrow> Inl e
      | Inr b \<Rightarrow> (case filterE p xs of Inl e \<Rightarrow> Inl e
                  | Inr ys \<Rightarrow> Inr (if b then x # ys else ys)))"

fun mapE :: "('a \<Rightarrow> error + 'b) \<Rightarrow> 'a list \<Rightarrow> error + 'b list" where
  "mapE f [] = Inr []"
| "mapE f (x # xs) =
     (case f x of Inl e \<Rightarrow> Inl e
      | Inr y \<Rightarrow> (case mapE f xs of Inl e \<Rightarrow> Inl e | Inr ys \<Rightarrow> Inr (y # ys)))"

section \<open>GridCell and GridPoint\<close>

text \<open>
  A \<^verbatim>\<open>GridCell\<close> holds one boolean. No cell object is ever mutated after it was
  built (\<^verbatim>\<open>GridCell.set\<close> has no caller: \<^verbatim>\<open>applyPoints\<close> replaces the reference in the
  row), so the sharing of one cell object by the slots of a fresh row cannot be
  observed, and a cell is modelled by its boolean.
\<close>

definition fromChar :: "char \<Rightarrow> bool" where
  "fromChar ch = (ch \<noteq> CHR ''.'' \<and> ch \<noteq> CHR '' '')"

record GridPoint =
  row :: int
  col :: int
  state :: bool

definition GridPoint_moveBy :: "int \<times> int \<Rightarrow> GridPoint \<Rightarrow> GridPoint" where
  "GridPoint_moveBy howmuch p =
     p\<lparr>row := row p + fst howmuch, col := col p + snd howmuch\<rparr>"

section \<open>Pattern\<close>

text \<open>\<^verbatim>\<open>pattern.strip("/")\<close>: drops every leading and every trailing slash.\<close>

definition strip :: "char \<Rightarrow> string \<Rightarrow> string" where
  "strip ch s = rev (dropWhile (\<lambda>c. c = ch) (rev (dropWhile (\<lambda>c. c = ch) s)))"

text \<open>\<^verbatim>\<open>s.split("/")\<close>: the pieces between the separators, empty pieces included; the
  empty string gives one empty piece. \<open>acc\<close> is the piece being read, reversed.\<close>

fun splitAcc :: "char \<Rightarrow> string \<Rightarrow> string \<Rightarrow> string list" where
  "splitAcc sep acc [] = [rev acc]"
| "splitAcc sep acc (c # cs) =
     (if c = sep then rev acc # splitAcc sep [] cs else splitAcc sep (c # acc) cs)"

definition split :: "char \<Rightarrow> string \<Rightarrow> string list" where
  "split sep s = splitAcc sep [] s"

definition mkPoint :: "int \<Rightarrow> int \<Rightarrow> char \<Rightarrow> GridPoint" where
  "mkPoint r c val = \<lparr>row = r, col = c, state = fromChar val\<rparr>"

text \<open>The points of one row segment: \<^verbatim>\<open>map(lambda val,col: ..., rows[r], range(len(rows[r])))\<close>.\<close>

definition rowPoints :: "int \<Rightarrow> string \<Rightarrow> GridPoint list" where
  "rowPoints r seg = map (\<lambda>(val, c). mkPoint r c val) (zip seg (py_range (int (length seg))))"

record Pattern =
  points :: "GridPoint list"

definition Pattern_init :: "string \<Rightarrow> Pattern" where
  "Pattern_init pattern =
     (let rws = split (CHR ''/'') (strip (CHR ''/'') pattern)
      in \<lparr>points = concat (map (\<lambda>r. rowPoints (int r) (rws ! r)) [0 ..< length rws])\<rparr>)"

definition getPoints :: "Pattern \<Rightarrow> GridPoint list" where
  "getPoints p = points p"

definition Pattern_getExtent :: "Pattern \<Rightarrow> int \<times> int" where
  "Pattern_getExtent p =
     foldl (\<lambda>(maxrow, maxcol) q. (max maxrow (row q), max maxcol (col q))) (0, 0) (points p)"

definition Pattern_moveBy :: "int \<times> int \<Rightarrow> Pattern \<Rightarrow> Pattern" where
  "Pattern_moveBy howmuch p = p\<lparr>points := map (GridPoint_moveBy howmuch) (points p)\<rparr>"

section \<open>Grid\<close>

text \<open>
  \<^verbatim>\<open>self.rows\<close> is a list of row lists, \<^verbatim>\<open>self.extent\<close> the list
  \<^verbatim>\<open>[rowCount, colCount]\<close> and \<^verbatim>\<open>self.margins\<close> the list \<^verbatim>\<open>[north, east, south, west]\<close>.
  Every row list is a fresh object (built by the comprehension of \<^verbatim>\<open>__init__\<close> or by
  \<^verbatim>\<open>__addARow\<close>), so changing one row in place changes one slot of \<^verbatim>\<open>self.rows\<close>.
  The model is of one grid that owns its extent list.
\<close>

record Grid =
  rows :: "bool list list"
  extent :: "int list"
  margins :: "int list"

definition directions :: "(int \<times> int) list" where
  "directions = [(-1, -1), (-1, 0), (-1, 1), (0, -1), (0, 1), (1, -1), (1, 0), (1, 1)]"

text \<open>The third check of \<^verbatim>\<open>__init__\<close>:
  \<^verbatim>\<open>extent[0] < (margins[0]+margins[2]) or extent[1] < (margins[1]+margins[3])\<close>,
  read left to right, the second disjunct only when the first is false.\<close>

definition extentsTooSmall :: "int list \<Rightarrow> int list \<Rightarrow> error + bool" where
  "extentsTooSmall ext mrg =
     bindE (py_get ext 0) (\<lambda>e0.
     bindE (py_get mrg 0) (\<lambda>m0.
     bindE (py_get mrg 2) (\<lambda>m2.
       if e0 < m0 + m2 then Inr True
       else
         bindE (py_get ext 1) (\<lambda>e1.
         bindE (py_get mrg 1) (\<lambda>m1.
         bindE (py_get mrg 3) (\<lambda>m3. Inr (e1 < m1 + m3)))))))"

definition Grid_init :: "string \<Rightarrow> int list \<Rightarrow> int list \<Rightarrow> error + Grid" where
  "Grid_init gridType ext mrg =
     (if gridType \<noteq> ''inf'' then Inl BadGridType
      else if list_ex (\<lambda>x. x < 1) mrg then Inl BadGridMargins
      else
        bindE (extentsTooSmall ext mrg) (\<lambda>small.
          if small then Inl BadGridExtents
          else
            bindE (py_get ext 1) (\<lambda>e1.
            bindE (py_get ext 0) (\<lambda>e0.
              Inr \<lparr>rows = map (\<lambda>i. replicate (nat e1) False) (py_range e0),
                   extent = ext, margins = mrg\<rparr>))))"

definition isCellAlive :: "Grid \<Rightarrow> int \<Rightarrow> int \<Rightarrow> error + bool" where
  "isCellAlive g r c = bindE (py_get (rows g) r) (\<lambda>rw. py_get rw c)"

text \<open>\<^verbatim>\<open>getCell\<close>: the \<^verbatim>\<open>try\<close> body is \<^verbatim>\<open>self.rows[r][c]\<close>; the bare \<^verbatim>\<open>except\<close> turns any
  exception into a dead cell.\<close>

definition getCell :: "Grid \<Rightarrow> int \<Rightarrow> int \<Rightarrow> error + bool" where
  "getCell g r c =
     (case bindE (py_get (rows g) r) (\<lambda>rw. py_get rw c) of
        Inl e \<Rightarrow> Inr False
      | Inr cell \<Rightarrow> Inr cell)"

definition countNeighborsCell :: "Grid \<Rightarrow> int \<Rightarrow> int \<Rightarrow> error + int" where
  "countNeighborsCell g r0 c0 =
     bindE (filterE (\<lambda>s. getCell g (fst s + r0) (snd s + c0)) directions) (\<lambda>livings.
       Inr (int (length livings)))"

definition countNeighborsForRow :: "Grid \<Rightarrow> int \<Rightarrow> error + int list" where
  "countNeighborsForRow g rw =
     bindE (py_get (extent g) 1) (\<lambda>n.
       mapE (\<lambda>cl. countNeighborsCell g rw cl) (py_range n))"

definition getExtent :: "Grid \<Rightarrow> int list" where
  "getExtent g = extent g"

subsection \<open>Margin maintenance\<close>

definition testRowIsDead :: "Grid \<Rightarrow> int \<Rightarrow> error + bool" where
  "testRowIsDead g r =
     bindE (py_get (extent g) 1) (\<lambda>n.
     bindE (filterE (\<lambda>c. isCellAlive g r c) (py_range n)) (\<lambda>live. Inr (live = [])))"

definition testColumnIsDead :: "Grid \<Rightarrow> int \<Rightarrow> error + bool" where
  "testColumnIsDead g c =
     bindE (py_get (extent g) 0) (\<lambda>n.
     bindE (filterE (\<lambda>r. isCellAlive g r c) (py_range n)) (\<lambda>live. Inr (live = [])))"

text \<open>The four \<^verbatim>\<open>while\<close> loops of \<^verbatim>\<open>__computeDeficits\<close>. Each moves one index by one
  towards the other side, so the distance to the far end is the measure.\<close>

function scanTop :: "Grid \<Rightarrow> int \<Rightarrow> error + int" where
  "scanTop g top' =
     (case py_get (extent g) 0 of Inl e \<Rightarrow> Inl e
      | Inr n \<Rightarrow>
          if top' < n then
            (case testRowIsDead g top' of Inl e \<Rightarrow> Inl e
             | Inr dead \<Rightarrow> if dead then scanTop g (top' + 1) else Inr top')
          else Inr top')"
  by pat_completeness auto
termination
  by (relation "measure (\<lambda>(g, top'). nat (extent g ! 0 - top'))")
     (auto simp: py_get_def py_index_def split: if_splits)

function scanBottom :: "Grid \<Rightarrow> int \<Rightarrow> int \<Rightarrow> error + int" where
  "scanBottom g top' bottom =
     (case py_get (extent g) 0 of Inl e \<Rightarrow> Inl e
      | Inr n \<Rightarrow>
          if bottom < n \<and> bottom > top' then
            (case testRowIsDead g bottom of Inl e \<Rightarrow> Inl e
             | Inr dead \<Rightarrow> if dead then scanBottom g top' (bottom - 1) else Inr bottom)
          else Inr bottom)"
  by pat_completeness auto
termination
  by (relation "measure (\<lambda>(g, top', bottom). nat (bottom - top'))") auto

function scanLeft :: "Grid \<Rightarrow> int \<Rightarrow> error + int" where
  "scanLeft g left =
     (case py_get (extent g) 1 of Inl e \<Rightarrow> Inl e
      | Inr n \<Rightarrow>
          if left < n then
            (case testColumnIsDead g left of Inl e \<Rightarrow> Inl e
             | Inr dead \<Rightarrow> if dead then scanLeft g (left + 1) else Inr left)
          else Inr left)"
  by pat_completeness auto
termination
  by (relation "measure (\<lambda>(g, left). nat (extent g ! 1 - left))")
     (auto simp: py_get_def py_index_def split: if_splits)

function scanRight :: "Grid \<Rightarrow> int \<Rightarrow> int \<Rightarrow> error + int" where
  "scanRight g left right =
     (case py_get (extent g) 1 of Inl e \<Rightarrow> Inl e
      | Inr n \<Rightarrow>
          if right < n \<and> right > left then
            (case testColumnIsDead g right of Inl e \<Rightarrow> Inl e
             | Inr dead \<Rightarrow> if dead then scanRight g left (right - 1) else Inr right)
          else Inr right)"
  by pat_completeness auto
termination
  by (relation "measure (\<lambda>(g, left, right). nat (right - left))") auto

text \<open>\<^verbatim>\<open>__computeDeficits\<close> returns \<^verbatim>\<open>(deficit_N, deficit_E, deficit_S, deficit_W)\<close>.\<close>

definition computeDeficits :: "Grid \<Rightarrow> error + (int \<times> int \<times> int \<times> int)" where
  "computeDeficits g =
     bindE (py_get (extent g) 0) (\<lambda>e0.
     bindE (py_get (extent g) 1) (\<lambda>e1.
     bindE (scanTop g 0) (\<lambda>top'.
     bindE (scanBottom g top' (e0 - 1)) (\<lambda>bottom.
     bindE (scanLeft g 0) (\<lambda>left.
     bindE (scanRight g left (e1 - 1)) (\<lambda>right.
     bindE (py_get (margins g) 0) (\<lambda>m0.
     bindE (py_get (margins g) 1) (\<lambda>m1.
     bindE (py_get (margins g) 2) (\<lambda>m2.
     bindE (py_get (margins g) 3) (\<lambda>m3.
       Inr (m0 - top', m1 - (e1 - right - 1), m2 - (e0 - bottom - 1), m3 - left)))))))))))"

definition addARow :: "int \<Rightarrow> Grid \<Rightarrow> error + Grid" where
  "addARow i g =
     bindE (py_get (extent g) 1) (\<lambda>n.
       Inr (g\<lparr>rows := py_insert (rows g) i (replicate (nat n) False)\<rparr>))"

definition trimARow :: "int \<Rightarrow> Grid \<Rightarrow> error + Grid" where
  "trimARow i g = bindE (py_pop (rows g) i) (\<lambda>rs. Inr (g\<lparr>rows := rs\<rparr>))"

definition addAColumn :: "int \<Rightarrow> Grid \<Rightarrow> error + Grid" where
  "addAColumn i g =
     bindE (py_get (extent g) 0) (\<lambda>n.
       forEach (py_range n)
         (\<lambda>r g. bindE (py_get (rows g) r) (\<lambda>rw.
                 bindE (py_set (rows g) r (py_insert rw i False)) (\<lambda>rs.
                   Inr (g\<lparr>rows := rs\<rparr>)))) g)"

definition trimAColumn :: "int \<Rightarrow> Grid \<Rightarrow> error + Grid" where
  "trimAColumn i g =
     bindE (py_get (extent g) 0) (\<lambda>n.
       forEach (py_range n)
         (\<lambda>r g. bindE (py_get (rows g) r) (\<lambda>rw.
                 bindE (py_pop rw i) (\<lambda>rw'.
                 bindE (py_set (rows g) r rw') (\<lambda>rs.
                   Inr (g\<lparr>rows := rs\<rparr>))))) g)"

text \<open>\<^verbatim>\<open>self.extent[0] = len(self.rows)\<close> and \<^verbatim>\<open>self.extent[1] = len(self.rows[0])\<close>.\<close>

definition updateRowCount :: "Grid \<Rightarrow> error + Grid" where
  "updateRowCount g =
     bindE (py_set (extent g) 0 (int (length (rows g)))) (\<lambda>ex. Inr (g\<lparr>extent := ex\<rparr>))"

definition updateColCount :: "Grid \<Rightarrow> error + Grid" where
  "updateColCount g =
     bindE (py_get (rows g) 0) (\<lambda>rw.
     bindE (py_set (extent g) 1 (int (length rw))) (\<lambda>ex. Inr (g\<lparr>extent := ex\<rparr>)))"

definition maintainMargin :: "Grid \<Rightarrow> bool \<Rightarrow> error + Grid" where
  "maintainMargin g trim_now =
     bindE (computeDeficits g) (\<lambda>(deficit_N, deficit_E, deficit_S, deficit_W).
     bindE (forEach (py_range \<bar>deficit_N\<bar>)
              (\<lambda>i g. if deficit_N > 0 then addARow 0 g
                      else if trim_now then trimARow 0 g else Inr g) g) (\<lambda>g.
     bindE (updateRowCount g) (\<lambda>g.
     bindE (forEach (py_range \<bar>deficit_S\<bar>)
              (\<lambda>i g. if deficit_S > 0 then addARow (int (length (rows g))) g
                      else if trim_now then trimARow (int (length (rows g)) - 1) g
                      else Inr g) g) (\<lambda>g.
     bindE (updateRowCount g) (\<lambda>g.
     bindE (forEach (py_range \<bar>deficit_W\<bar>)
              (\<lambda>i g. if deficit_W > 0 then addAColumn 0 g
                      else if trim_now then trimAColumn 0 g else Inr g) g) (\<lambda>g.
     bindE (updateColCount g) (\<lambda>g.
     bindE (forEach (py_range \<bar>deficit_E\<bar>)
              (\<lambda>i g. if deficit_E > 0 then
                        bindE (py_get (rows g) 0) (\<lambda>rw. addAColumn (int (length rw)) g)
                      else if trim_now then
                        bindE (py_get (rows g) 0) (\<lambda>rw. trimAColumn (int (length rw) - 1) g)
                      else Inr g) g) (\<lambda>g.
       updateColCount g))))))))"

text \<open>\<^verbatim>\<open>self.rows[x.row][x.col] = x.state\<close>.\<close>

definition setPoint :: "GridPoint \<Rightarrow> Grid \<Rightarrow> error + Grid" where
  "setPoint x g =
     bindE (py_get (rows g) (row x)) (\<lambda>rw.
     bindE (py_set rw (col x) (state x)) (\<lambda>rw'.
     bindE (py_set (rows g) (row x) rw') (\<lambda>rs.
       Inr (g\<lparr>rows := rs\<rparr>))))"

definition applyPoints :: "Grid \<Rightarrow> GridPoint list \<Rightarrow> bool \<Rightarrow> error + Grid" where
  "applyPoints g pts trim_now =
     bindE (forEach pts setPoint g) (\<lambda>g. maintainMargin g trim_now)"

definition seedPattern :: "Grid \<Rightarrow> string \<Rightarrow> string \<Rightarrow> error + Grid" where
  "seedPattern g initialPattern initialLocation =
     (if initialLocation \<noteq> ''center'' then Inl BadPatternLocation
      else
        let p = Pattern_init initialPattern;
            pextent = Pattern_getExtent p
        in bindE (py_get (extent g) 0) (\<lambda>e0.
           bindE (py_get (extent g) 1) (\<lambda>e1.
             let moveBy = ((e0 - fst pextent) div 2, (e1 - snd pextent) div 2);
                 p = Pattern_moveBy moveBy p
             in applyPoints g (getPoints p) False)))"

section \<open>GameOfLife\<close>

record GameOfLife =
  grid :: Grid
  tickCount :: int

definition GameOfLife_init :: "int list \<Rightarrow> int list \<Rightarrow> string \<Rightarrow> error + GameOfLife" where
  "GameOfLife_init ext mrg initialPattern =
     bindE (Grid_init ''inf'' ext mrg) (\<lambda>g.
     bindE (seedPattern g initialPattern ''center'') (\<lambda>g.
       Inr \<lparr>grid = g, tickCount = 0\<rparr>))"

text \<open>\<^verbatim>\<open>__dieTest\<close> is \<^verbatim>\<open>not (2 <= ncount <= 3) and isCellAlive(rownum, colnum)\<close> and
  \<^verbatim>\<open>__birthTest\<close> is \<^verbatim>\<open>3 == ncount and not isCellAlive(rownum, colnum)\<close>: the cell is read
  only when the count did not decide.\<close>

definition dieTest :: "Grid \<Rightarrow> int \<Rightarrow> int \<Rightarrow> int \<Rightarrow> error + bool" where
  "dieTest g rownum ncount colnum =
     (if \<not> (2 \<le> ncount \<and> ncount \<le> 3) then isCellAlive g rownum colnum else Inr False)"

definition birthTest :: "Grid \<Rightarrow> int \<Rightarrow> int \<Rightarrow> int \<Rightarrow> error + bool" where
  "birthTest g rownum ncount colnum =
     (if 3 = ncount then bindE (isCellAlive g rownum colnum) (\<lambda>a. Inr (\<not> a)) else Inr False)"

definition determineTransitions :: "Grid \<Rightarrow> int \<Rightarrow> int list \<Rightarrow> error + GridPoint list" where
  "determineTransitions g rownum neighbors =
     forEach (py_range (int (length neighbors)))
       (\<lambda>colnum census.
          bindE (py_get neighbors colnum) (\<lambda>ncount.
          bindE (dieTest g rownum ncount colnum) (\<lambda>die.
            if die then Inr (census @ [\<lparr>row = rownum, col = colnum, state = False\<rparr>])
            else
              bindE (birthTest g rownum ncount colnum) (\<lambda>birth.
                if birth then Inr (census @ [\<lparr>row = rownum, col = colnum, state = True\<rparr>])
                else Inr census)))) []"

text \<open>The first part of \<^verbatim>\<open>tick\<close>: the unpacking of the extent and the loop over the rows
  that collects the transitions. The grid is only read.\<close>

definition collectTransitions :: "Grid \<Rightarrow> error + GridPoint list" where
  "collectTransitions g =
     (case getExtent g of
        [rowcount, colcount] \<Rightarrow>
          forEach (py_range rowcount)
            (\<lambda>rownum transitions.
               bindE (countNeighborsForRow g rownum) (\<lambda>neighbors.
               bindE (determineTransitions g rownum neighbors) (\<lambda>row_census.
                 if row_census \<noteq> [] then Inr (transitions @ row_census)
                 else Inr transitions))) []
      | _ \<Rightarrow> Inl ValueError)"

text \<open>\<^verbatim>\<open>self.tickCount and self.tickCount % 5 == 0\<close> is the integer 0, hence false, when
  the count is 0.\<close>

definition trimDue :: "int \<Rightarrow> bool" where
  "trimDue tc = (if tc = 0 then False else tc mod 5 = 0)"

definition tick :: "GameOfLife \<Rightarrow> error + GameOfLife" where
  "tick gm =
     bindE (collectTransitions (grid gm)) (\<lambda>transitions.
     bindE (applyPoints (grid gm) transitions (trimDue (tickCount gm))) (\<lambda>g.
       Inr (gm\<lparr>grid := g, tickCount := tickCount gm + 1\<rparr>)))"

section \<open>Vocabulary of the properties\<close>

definition rowCount :: "Grid \<Rightarrow> int" where
  "rowCount g = extent g ! 0"

definition colCount :: "Grid \<Rightarrow> int" where
  "colCount g = extent g ! 1"

definition north :: "Grid \<Rightarrow> int" where
  "north g = margins g ! 0"

definition east :: "Grid \<Rightarrow> int" where
  "east g = margins g ! 1"

definition south :: "Grid \<Rightarrow> int" where
  "south g = margins g ! 2"

definition west :: "Grid \<Rightarrow> int" where
  "west g = margins g ! 3"

text \<open>The grid's core invariant: the extent is a pair equal to the dimensions of a
  rectangular array, and there are four margins, each at least 1.\<close>

definition wf_grid :: "Grid \<Rightarrow> bool" where
  "wf_grid g \<longleftrightarrow>
     length (extent g) = 2 \<and>
     rowCount g = int (length (rows g)) \<and>
     0 \<le> colCount g \<and>
     list_all (\<lambda>rw. int (length rw) = colCount g) (rows g) \<and>
     length (margins g) = 4 \<and>
     list_all (\<lambda>m. 1 \<le> m) (margins g)"

text \<open>The cell at \<open>(r, c)\<close> is alive: the coordinates are inside the array and the cell
  stored there is alive. Outside the array every cell counts as dead.\<close>

definition alive :: "Grid \<Rightarrow> int \<Rightarrow> int \<Rightarrow> bool" where
  "alive g r c \<longleftrightarrow>
     0 \<le> r \<and> r < int (length (rows g)) \<and>
     0 \<le> c \<and> c < int (length (rows g ! nat r)) \<and>
     rows g ! nat r ! nat c"

text \<open>The number of live cells among the eight Moore neighbours of \<open>(r, c)\<close>.\<close>

definition mooreCount :: "Grid \<Rightarrow> int \<Rightarrow> int \<Rightarrow> int" where
  "mooreCount g r c = int (length (filter (\<lambda>d. alive g (r + fst d) (c + snd d)) directions))"

text \<open>The rule of the Game of Life: a live cell stays alive with 2 or 3 live neighbours,
  a dead cell becomes alive with exactly 3.\<close>

definition lifeRule :: "bool \<Rightarrow> int \<Rightarrow> bool" where
  "lifeRule a n = (if a then 2 \<le> n \<and> n \<le> 3 else n = 3)"

text \<open>Every live cell keeps the configured distance to each of the four edges.\<close>

definition margin_ok :: "Grid \<Rightarrow> bool" where
  "margin_ok g \<longleftrightarrow>
     (\<forall>r c. alive g r c \<longrightarrow>
        north g \<le> r \<and> r + south g < rowCount g \<and>
        west g \<le> c \<and> c + east g < colCount g)"

text \<open>Auxiliary, for the proofs about margin maintenance: what the loop for one side
  does to a list. With a positive deficit \<open>d\<close> it puts \<open>d\<close> blank elements at that end; with
  a deficit that is not positive it removes \<open>-d\<close> elements there when the trim is due, and
  nothing otherwise. \<open>shift\<close> is the resulting change of the length.\<close>

definition adjustFront :: "int \<Rightarrow> bool \<Rightarrow> 'a \<Rightarrow> 'a list \<Rightarrow> 'a list" where
  "adjustFront d trim blank xs =
     (if d > 0 then replicate (nat d) blank @ xs
      else if trim then drop (nat (- d)) xs else xs)"

definition adjustBack :: "int \<Rightarrow> bool \<Rightarrow> 'a \<Rightarrow> 'a list \<Rightarrow> 'a list" where
  "adjustBack d trim blank xs =
     (if d > 0 then xs @ replicate (nat d) blank
      else if trim then take (length xs - nat (- d)) xs else xs)"

definition shift :: "int \<Rightarrow> bool \<Rightarrow> int" where
  "shift d trim = (if d > 0 \<or> trim then d else 0)"

text \<open>Auxiliary: the cell at column \<open>c\<close> of a row is alive.\<close>

definition liveIn :: "int \<Rightarrow> bool list \<Rightarrow> bool" where
  "liveIn c rw \<longleftrightarrow> 0 \<le> c \<and> c < int (length rw) \<and> rw ! nat c"

text \<open>Auxiliary: the grid that margin maintenance yields for the deficits
  \<open>(dN, dE, dS, dW)\<close>.\<close>

definition resize :: "Grid \<Rightarrow> bool \<Rightarrow> int \<Rightarrow> int \<Rightarrow> int \<Rightarrow> int \<Rightarrow> Grid" where
  "resize g trim dN dE dS dW =
     \<lparr>rows = map (\<lambda>rw. adjustBack dE trim False (adjustFront dW trim False rw))
               (adjustBack dS trim (replicate (nat (colCount g)) False)
                  (adjustFront dN trim (replicate (nat (colCount g)) False) (rows g))),
      extent = [rowCount g + shift dN trim + shift dS trim,
                colCount g + shift dW trim + shift dE trim],
      margins = margins g\<rparr>"

text \<open>The live region touches the margin on every side: there is a live cell in the first
  row and column behind the north and west margins and in the last ones before the south
  and east margins.\<close>

definition tight :: "Grid \<Rightarrow> bool" where
  "tight g \<longleftrightarrow>
     (\<exists>j. alive g (north g) j) \<and> (\<exists>j. alive g (rowCount g - 1 - south g) j) \<and>
     (\<exists>i. alive g i (west g)) \<and> (\<exists>i. alive g i (colCount g - 1 - east g))"

text \<open>Auxiliary: the cell that \<^verbatim>\<open>getCell\<close> returns, with Python's index rule written
  out; and the neighbour count that the code computes from it.\<close>

definition lookup :: "Grid \<Rightarrow> int \<Rightarrow> int \<Rightarrow> bool" where
  "lookup g r c =
     (case py_index (length (rows g)) r of
        None \<Rightarrow> False
      | Some k \<Rightarrow>
          (case py_index (length (rows g ! k)) c of
             None \<Rightarrow> False
           | Some m \<Rightarrow> rows g ! k ! m))"

definition codeCount :: "Grid \<Rightarrow> int \<Rightarrow> int \<Rightarrow> int" where
  "codeCount g r c =
     int (length (filter (\<lambda>d. lookup g (fst d + r) (snd d + c)) directions))"

text \<open>Auxiliary: the transition, if any, that \<^verbatim>\<open>_determineTransitions\<close> appends for a
  cell with state \<open>a\<close> and count \<open>n\<close>, and the whole list that a tick collects, row by row.\<close>

definition transitionFor :: "bool \<Rightarrow> int \<Rightarrow> int \<Rightarrow> int \<Rightarrow> GridPoint list" where
  "transitionFor a n r c =
     (if a \<and> \<not> (2 \<le> n \<and> n \<le> 3) then [\<lparr>row = r, col = c, state = False\<rparr>]
      else if \<not> a \<and> n = 3 then [\<lparr>row = r, col = c, state = True\<rparr>]
      else [])"

definition transitionsOf :: "Grid \<Rightarrow> GridPoint list" where
  "transitionsOf g =
     concat (map (\<lambda>r. concat (map (\<lambda>c. transitionFor (alive g r c) (codeCount g r c) r c)
                                  (py_range (colCount g))))
               (py_range (rowCount g)))"

text \<open>The cell that a list of points leaves at \<open>(r, c)\<close>: the state of the last point
  written there, or the old cell.\<close>

definition written :: "GridPoint list \<Rightarrow> int \<Rightarrow> int \<Rightarrow> bool \<Rightarrow> bool" where
  "written pts r c old = foldl (\<lambda>a p. if row p = r \<and> col p = c then state p else a) old pts"

text \<open>The reference tick, written from the specification: take the pre-tick grid as
  an immutable snapshot, compute the neighbour count of every cell from the snapshot, only
  then replace every cell by the rule's verdict for its snapshot state and count, and
  maintain the margins once.\<close>

definition snapshotCounts :: "Grid \<Rightarrow> int list list" where
  "snapshotCounts snapshot =
     map (\<lambda>r. map (\<lambda>c. mooreCount snapshot r c) (py_range (colCount snapshot)))
       (py_range (rowCount snapshot))"

definition nextRows :: "Grid \<Rightarrow> int list list \<Rightarrow> bool list list" where
  "nextRows snapshot counts =
     map (\<lambda>r. map (\<lambda>c. lifeRule (alive snapshot r c) (counts ! nat r ! nat c))
                 (py_range (colCount snapshot)))
       (py_range (rowCount snapshot))"

definition tick_reference :: "GameOfLife \<Rightarrow> error + GameOfLife" where
  "tick_reference gm =
     (let snapshot = grid gm;
          counts = snapshotCounts snapshot;
          mutated = snapshot\<lparr>rows := nextRows snapshot counts\<rparr>
      in bindE (maintainMargin mutated (trimDue (tickCount gm))) (\<lambda>g.
           Inr (gm\<lparr>grid := g, tickCount := tickCount gm + 1\<rparr>)))"

definition invalidConfiguration :: "error \<Rightarrow> bool" where
  "invalidConfiguration e \<longleftrightarrow> e = BadGridType \<or> e = BadGridMargins \<or> e = BadGridExtents"

section \<open>Basic facts about the list operations and the loops\<close>

lemma bindE_Inr [simp]: "bindE (Inr x) f = f x"
  by (simp add: bindE_def)

lemma bindE_Inl [simp]: "bindE (Inl e) f = Inl e"
  by (simp add: bindE_def)

lemma bindE_eq_Inr: "bindE m f = Inr y \<longleftrightarrow> (\<exists>x. m = Inr x \<and> f x = Inr y)"
  by (cases m) simp_all

lemma py_get_nth: "0 \<le> i \<Longrightarrow> i < int (length xs) \<Longrightarrow> py_get xs i = Inr (xs ! nat i)"
  by (simp add: py_get_def py_index_def)

lemma py_get_nat [simp]: "n < length xs \<Longrightarrow> py_get xs (int n) = Inr (xs ! n)"
  by (simp add: py_get_def py_index_def)

lemma py_get_0 [simp]: "0 < length xs \<Longrightarrow> py_get xs 0 = Inr (xs ! 0)"
  by (simp add: py_get_def py_index_def)

lemma py_get_1 [simp]: "1 < length xs \<Longrightarrow> py_get xs 1 = Inr (xs ! 1)"
  by (simp add: py_get_def py_index_def)

lemma py_get_2 [simp]: "2 < length xs \<Longrightarrow> py_get xs 2 = Inr (xs ! 2)"
  using py_get_nat [of 2 xs] by simp

lemma py_get_3 [simp]: "3 < length xs \<Longrightarrow> py_get xs 3 = Inr (xs ! 3)"
  using py_get_nat [of 3 xs] by simp

lemma filterE_pure:
  "(\<And>x. x \<in> set xs \<Longrightarrow> p x = Inr (q x)) \<Longrightarrow> filterE p xs = Inr (filter q xs)"
  by (induction xs) simp_all

lemma mapE_pure:
  "(\<And>x. x \<in> set xs \<Longrightarrow> f x = Inr (h x)) \<Longrightarrow> mapE f xs = Inr (map h xs)"
  by (induction xs) simp_all

lemma forEach_append:
  "forEach (xs @ ys) body s = bindE (forEach xs body s) (forEach ys body)"
  by (induction xs arbitrary: s) (simp_all split: sum.splits)

lemma forEach_skip: "(\<And>x s. x \<in> set xs \<Longrightarrow> body x s = Inr s) \<Longrightarrow> forEach xs body s = Inr s"
  by (induction xs) simp_all

lemma py_range_int: "py_range (int n) = map int [0 ..< n]"
  by (simp add: py_range_def)

lemma py_range_nonpos [simp]: "n \<le> 0 \<Longrightarrow> py_range n = []"
  by (simp add: py_range_def)

lemma set_py_range: "set (py_range n) = {i. 0 \<le> i \<and> i < n}"
  apply (auto simp: py_range_def)
  subgoal for x by (rule image_eqI [of _ _ "nat x"]) auto
  done

lemma length_py_range [simp]: "length (py_range n) = nat n"
  by (simp add: py_range_def)

section \<open>Pattern: properties\<close>

lemma strip_replicate_left: "strip ch (replicate k ch @ s) = strip ch s"
proof -
  have "dropWhile (\<lambda>c. c = ch) (replicate k ch @ s) = dropWhile (\<lambda>c. c = ch) s"
    by (induction k) simp_all
  then show ?thesis by (simp add: strip_def)
qed

lemma strip_replicate_right: "strip ch (s @ replicate k ch) = strip ch s"
proof -
  have r: "rev (s @ replicate k ch) = replicate k ch @ rev s" by simp
  have d: "dropWhile (\<lambda>c. c = ch) (replicate k ch @ t) = dropWhile (\<lambda>c. c = ch) t" for t
    by (induction k) simp_all
  show ?thesis
  proof (cases "\<forall>c \<in> set s. c = ch")
    case True
    then have s: "s = replicate (length s) ch"
      by (simp add: replicate_length_same)
    have "s @ replicate k ch = replicate (length s + k) ch"
      by (subst s) (simp add: replicate_add)
    then have "strip ch (s @ replicate k ch) = strip ch (replicate (length s + k) ch @ [])"
      by simp
    also have "\<dots> = strip ch []" by (rule strip_replicate_left)
    also have "\<dots> = strip ch (replicate (length s) ch @ [])"
      by (rule strip_replicate_left [symmetric])
    also have "\<dots> = strip ch s" using s by simp
    finally show ?thesis .
  next
    case False
    then have ne: "dropWhile (\<lambda>c. c = ch) s \<noteq> []" by simp
    from False obtain x where "x \<in> set s" "x \<noteq> ch" by blast
    then have "dropWhile (\<lambda>c. c = ch) (s @ replicate k ch)
            = dropWhile (\<lambda>c. c = ch) s @ replicate k ch"
      by (rule dropWhile_append1)
    then show ?thesis
      by (simp add: strip_def d)
  qed
qed

text \<open>
  C10. The parser removes every leading and every trailing \<open>/\<close> before it splits, so
  any number of slashes put in front of or behind a notation string leaves the parsed
  point list (rows, columns and states) as it is.
\<close>

theorem Pattern_init_ignores_outer_slashes:
  "Pattern_init (replicate k (CHR ''/'') @ s @ replicate j (CHR ''/'')) = Pattern_init s"
  by (simp add: Pattern_init_def strip_replicate_left strip_replicate_right)

text \<open>
  C5. The header of \<^verbatim>\<open>Pattern\<close> says that the notation is translated into the set of
  points that are alive. The constructor builds a point for every character, the dead
  ones too, and \<^verbatim>\<open>getExtent\<close> takes its maxima over all of them: the all-dead pattern
  \<open>..\<close> yields two dead points and the extent \<open>(0, 1)\<close>, and for \<open>X..\<close> the extent is
  \<open>(0, 2)\<close> although the only live point is in column 0.
\<close>

theorem Pattern_init_keeps_dead_points:
  "points (Pattern_init ''..'') =
     [\<lparr>row = 0, col = 0, state = False\<rparr>, \<lparr>row = 0, col = 1, state = False\<rparr>] \<and>
   Pattern_getExtent (Pattern_init ''..'') = (0, 1) \<and>
   Pattern_getExtent (Pattern_init ''X..'') = (0, 2)"
  by code_simp

section \<open>Grid construction\<close>

lemma extentsTooSmall_shape:
  assumes "length ext = 2" "length mrg = 4"
  shows "extentsTooSmall ext mrg =
           Inr (ext ! 0 < mrg ! 0 + mrg ! 2 \<or> ext ! 1 < mrg ! 1 + mrg ! 3)"
  using assms by (simp add: extentsTooSmall_def)

text \<open>
  C7. For an extent of two entries and four margins, the constructor raises if and only
  if the grid type is not \<open>inf\<close>, some margin is below 1, or a dimension is smaller than
  the sum of its two opposing margins; what it raises is then one of its three
  configuration errors; and when it does not raise, the grid has the given extent and
  margins and every cell of its \<open>rowCount \<times> colCount\<close> array is dead.
\<close>

theorem Grid_init_raises_iff:
  assumes "length ext = 2" and "length mrg = 4"
  shows "((\<exists>e. Grid_init gridType ext mrg = Inl e) \<longleftrightarrow>
            (gridType \<noteq> ''inf'' \<or> (\<exists>m \<in> set mrg. m < 1) \<or>
             ext ! 0 < mrg ! 0 + mrg ! 2 \<or> ext ! 1 < mrg ! 1 + mrg ! 3)) \<and>
         (\<forall>e. Grid_init gridType ext mrg = Inl e \<longrightarrow> invalidConfiguration e) \<and>
         (\<forall>g. Grid_init gridType ext mrg = Inr g \<longrightarrow>
            g = \<lparr>rows = replicate (nat (ext ! 0)) (replicate (nat (ext ! 1)) False),
                 extent = ext, margins = mrg\<rparr>)"
  using assms
  by (auto simp: Grid_init_def extentsTooSmall_shape invalidConfiguration_def list_ex_iff
        py_range_def map_replicate_const split: if_splits)

theorem Grid_init_raises_iff_witness:
  "length [10, 20 :: int] = 2 \<and> length [2, 3, 2, 3 :: int] = 4 \<and>
   Grid_init ''inf'' [10, 20] [2, 3, 2, 3] =
     Inr \<lparr>rows = replicate 10 (replicate 20 False), extent = [10, 20],
          margins = [2, 3, 2, 3]\<rparr> \<and>
   (\<exists>e. Grid_init ''inf'' [10, 20] [2, 3, 0, 3] = Inl e \<and> invalidConfiguration e)"
proof -
  have l2: "length [10, 20 :: int] = 2" and l4: "length [2, 3, 2, 3 :: int] = 4"
    and l4': "length [2, 3, 0, 3 :: int] = 4"
    by simp_all
  note ok = Grid_init_raises_iff [OF l2 l4, of "''inf''"]
  note bad = Grid_init_raises_iff [OF l2 l4', of "''inf''"]
  from ok have "\<not> (\<exists>e. Grid_init ''inf'' [10, 20] [2, 3, 2, 3] = Inl e)"
    by simp
  then obtain g where g: "Grid_init ''inf'' [10, 20] [2, 3, 2, 3] = Inr g"
    by (cases "Grid_init ''inf'' [10, 20] [2, 3, 2, 3]") auto
  with ok have "g = \<lparr>rows = replicate 10 (replicate 20 False), extent = [10, 20],
      margins = [2, 3, 2, 3]\<rparr>"
    by simp
  moreover from bad have "\<exists>e. Grid_init ''inf'' [10, 20] [2, 3, 0, 3] = Inl e"
    by simp
  with bad have "\<exists>e. Grid_init ''inf'' [10, 20] [2, 3, 0, 3] = Inl e \<and> invalidConfiguration e"
    by blast
  ultimately show ?thesis using g by simp
qed

section \<open>Cell lookup\<close>

lemma getCell_never_raises: "\<exists>cell. getCell g r c = Inr cell"
  by (cases "bindE (py_get (rows g) r) (\<lambda>rw. py_get rw c)") (auto simp: getCell_def)

lemma getCell_far_outside:
  assumes "r < - int (length (rows g)) \<or> int (length (rows g)) \<le> r \<or>
           (\<forall>rw \<in> set (rows g). c < - int (length rw) \<or> int (length rw) \<le> c)"
  shows "getCell g r c = Inr False"
proof (cases "py_get (rows g) r")
  case (Inl e)
  then show ?thesis by (simp add: getCell_def)
next
  case (Inr rw)
  then have "rw \<in> set (rows g)"
    by (auto simp: py_get_def py_index_def split: if_splits)
  moreover from Inr have "- int (length (rows g)) \<le> r \<and> r < int (length (rows g))"
    by (auto simp: py_get_def py_index_def split: if_splits)
  ultimately have "c < - int (length rw) \<or> int (length rw) \<le> c"
    using assms by auto
  then have "py_get rw c = Inl IndexError"
    by (auto simp: py_get_def py_index_def)
  with Inr show ?thesis by (simp add: getCell_def)
qed

text \<open>
  C4. The comment of \<^verbatim>\<open>getCell\<close> promises a dead cell whenever the boundaries are
  crossed. The lookup never raises, but a negative index down to minus the length is a
  valid Python index that counts from the end: on the 3 by 3 grid seeded with \<open>X\<close>
  (margins 1), whose only live cell is the centre, the lookup at \<open>(-2, -2)\<close> returns
  that live cell.
\<close>

theorem getCell_negative_index_wraps:
  "bindE (GameOfLife_init [3, 3] [1, 1, 1, 1] ''X'')
     (\<lambda>gm. bindE (getCell (grid gm) (- 2) (- 2))
        (\<lambda>cell. Inr (rows (grid gm), extent (grid gm), cell))) =
   Inr ([[False, False, False], [False, True, False], [False, False, False]], [3, 3], True)"
  by code_simp

section \<open>Margin maintenance on a dead grid\<close>

text \<open>
  C6. On a grid without live cells the scan of \<^verbatim>\<open>__computeDeficits\<close> leaves \<open>top\<close> at
  \<open>rowCount\<close> and \<open>bottom\<close> at \<open>rowCount - 1\<close> (and likewise \<open>left\<close>, \<open>right\<close>), so the
  south and east deficits equal the margins: the dead 4 by 4 grid with margins 1 grows
  to 5 by 5 when the trim is deferred, and is cut to 2 by 2 when it is due.
\<close>

theorem maintainMargin_resizes_dead_grid:
  "Grid_init ''inf'' [4, 4] [1, 1, 1, 1] =
     Inr \<lparr>rows = replicate 4 (replicate 4 False), extent = [4, 4], margins = [1, 1, 1, 1]\<rparr> \<and>
   maintainMargin
     \<lparr>rows = replicate 4 (replicate 4 False), extent = [4, 4], margins = [1, 1, 1, 1]\<rparr> False =
     Inr \<lparr>rows = replicate 5 (replicate 5 False), extent = [5, 5], margins = [1, 1, 1, 1]\<rparr> \<and>
   maintainMargin
     \<lparr>rows = replicate 4 (replicate 4 False), extent = [4, 4], margins = [1, 1, 1, 1]\<rparr> True =
     Inr \<lparr>rows = replicate 2 (replicate 2 False), extent = [2, 2], margins = [1, 1, 1, 1]\<rparr>"
  by code_simp

section \<open>Well-formed grids and the scans of the live region\<close>

lemma wf_gridD:
  assumes "wf_grid g"
  shows "py_get (extent g) 0 = Inr (int (length (rows g)))"
    and "py_get (extent g) 1 = Inr (colCount g)"
    and "py_get (margins g) 0 = Inr (north g)"
    and "py_get (margins g) 1 = Inr (east g)"
    and "py_get (margins g) 2 = Inr (south g)"
    and "py_get (margins g) 3 = Inr (west g)"
    and "rowCount g = int (length (rows g))"
    and "0 \<le> colCount g"
    and "\<And>r. r < length (rows g) \<Longrightarrow> int (length (rows g ! r)) = colCount g"
    and "1 \<le> north g" and "1 \<le> east g" and "1 \<le> south g" and "1 \<le> west g"
  using assms
  by (simp_all add: wf_grid_def rowCount_def colCount_def north_def east_def south_def
        west_def list_all_length)

lemma alive_wf:
  assumes "wf_grid g"
  shows "alive g r c \<longleftrightarrow>
           0 \<le> r \<and> r < rowCount g \<and> 0 \<le> c \<and> c < colCount g \<and> rows g ! nat r ! nat c"
  using wf_gridD(7,9) [OF assms] by (auto simp: alive_def)

lemma isCellAlive_wf:
  assumes "wf_grid g" "0 \<le> r" "r < rowCount g" "0 \<le> c" "c < colCount g"
  shows "isCellAlive g r c = Inr (alive g r c)"
proof -
  have r: "nat r < length (rows g)" using assms wf_gridD(7) [OF assms(1)] by simp
  then have "py_get (rows g) r = Inr (rows g ! nat r)"
    using assms(2) by (simp add: py_get_nth)
  moreover have "py_get (rows g ! nat r) c = Inr (rows g ! nat r ! nat c)"
    using assms wf_gridD(9) [OF assms(1) r] by (simp add: py_get_nth)
  ultimately show ?thesis
    using assms by (simp add: isCellAlive_def alive_wf)
qed

lemma filter_py_range_empty:
  "filter q (py_range n) = [] \<longleftrightarrow> (\<forall>i. 0 \<le> i \<and> i < n \<longrightarrow> \<not> q i)"
  by (auto simp: filter_empty_conv set_py_range)

lemma testRowIsDead_wf:
  assumes "wf_grid g" "0 \<le> r" "r < rowCount g"
  shows "testRowIsDead g r = Inr (\<forall>c. \<not> alive g r c)"
proof -
  have "filterE (\<lambda>c. isCellAlive g r c) (py_range (colCount g))
          = Inr (filter (\<lambda>c. alive g r c) (py_range (colCount g)))"
    by (rule filterE_pure) (simp add: set_py_range isCellAlive_wf assms)
  moreover have "(filter (\<lambda>c. alive g r c) (py_range (colCount g)) = []) \<longleftrightarrow> (\<forall>c. \<not> alive g r c)"
    using alive_wf [OF assms(1)] by (auto simp: filter_py_range_empty)
  ultimately show ?thesis
    by (simp add: testRowIsDead_def wf_gridD(2) [OF assms(1)])
qed

lemma testColumnIsDead_wf:
  assumes "wf_grid g" "0 \<le> c" "c < colCount g"
  shows "testColumnIsDead g c = Inr (\<forall>r. \<not> alive g r c)"
proof -
  have "filterE (\<lambda>r. isCellAlive g r c) (py_range (rowCount g))
          = Inr (filter (\<lambda>r. alive g r c) (py_range (rowCount g)))"
    by (rule filterE_pure) (simp add: set_py_range isCellAlive_wf assms)
  moreover have "(filter (\<lambda>r. alive g r c) (py_range (rowCount g)) = []) \<longleftrightarrow> (\<forall>r. \<not> alive g r c)"
    using alive_wf [OF assms(1)] by (auto simp: filter_py_range_empty)
  ultimately show ?thesis
    using wf_gridD(1,7) [OF assms(1)] by (simp add: testColumnIsDead_def)
qed

lemma scanTop_wf:
  "wf_grid g \<Longrightarrow> 0 \<le> t \<Longrightarrow> \<exists>t'. scanTop g t = Inr t' \<and> t \<le> t' \<and> (t \<le> rowCount g \<longrightarrow> t' \<le> rowCount g) \<and>
           (\<forall>r c. t \<le> r \<and> r < t' \<longrightarrow> \<not> alive g r c) \<and>
           (t' < rowCount g \<longrightarrow> (\<exists>c. alive g t' c))"
proof (induction g t rule: scanTop.induct)
  case (1 g t)
  note wf = "1.prems"(1)
  have ext: "py_get (extent g) 0 = Inr (rowCount g)"
    using wf_gridD(1,7) [OF wf] by simp
  show ?case
  proof (cases "t < rowCount g")
    case False
    then show ?thesis
      by (subst scanTop.simps) (auto simp: ext)
  next
    case True
    have dead: "testRowIsDead g t = Inr (\<forall>c. \<not> alive g t c)"
      using testRowIsDead_wf [OF wf "1.prems"(2) True] .
    show ?thesis
    proof (cases "\<forall>c. \<not> alive g t c")
      case False
      then show ?thesis
        using True by (subst scanTop.simps) (auto simp: ext dead)
    next
      case allDead: True
      have "0 \<le> t + 1" using "1.prems"(2) by simp
      from "1.IH" [OF ext True dead allDead wf this]
      obtain t' where t': "scanTop g (t + 1) = Inr t'" "t + 1 \<le> t'"
        "t + 1 \<le> rowCount g \<longrightarrow> t' \<le> rowCount g"
        "\<forall>r c. t + 1 \<le> r \<and> r < t' \<longrightarrow> \<not> alive g r c"
        "t' < rowCount g \<longrightarrow> (\<exists>c. alive g t' c)"
        by blast
      have "scanTop g t = Inr t'"
        using True allDead t'(1) by (subst scanTop.simps) (simp add: ext dead)
      moreover have "\<forall>r c. t \<le> r \<and> r < t' \<longrightarrow> \<not> alive g r c"
      proof (intro allI impI)
        fix r c assume "t \<le> r \<and> r < t'"
        then consider "r = t" | "t + 1 \<le> r \<and> r < t'" by linarith
        then show "\<not> alive g r c" using allDead t'(4) by cases auto
      qed
      ultimately show ?thesis using t' True by auto
    qed
  qed
qed


lemma scanLeft_wf:
  "wf_grid g \<Longrightarrow> 0 \<le> t \<Longrightarrow> \<exists>t'. scanLeft g t = Inr t' \<and> t \<le> t' \<and> (t \<le> colCount g \<longrightarrow> t' \<le> colCount g) \<and>
           (\<forall>r c. t \<le> c \<and> c < t' \<longrightarrow> \<not> alive g r c) \<and>
           (t' < colCount g \<longrightarrow> (\<exists>r. alive g r t'))"
proof (induction g t rule: scanLeft.induct)
  case (1 g t)
  note wf = "1.prems"(1)
  have ext: "py_get (extent g) 1 = Inr (colCount g)"
    using wf_gridD(2) [OF wf] by simp
  show ?case
  proof (cases "t < colCount g")
    case False
    then show ?thesis
      by (subst scanLeft.simps) (auto simp: ext)
  next
    case True
    have dead: "testColumnIsDead g t = Inr (\<forall>r. \<not> alive g r t)"
      using testColumnIsDead_wf [OF wf "1.prems"(2) True] .
    show ?thesis
    proof (cases "\<forall>r. \<not> alive g r t")
      case False
      then show ?thesis
        using True by (subst scanLeft.simps) (auto simp: ext dead)
    next
      case allDead: True
      have "0 \<le> t + 1" using "1.prems"(2) by simp
      from "1.IH" [OF ext True dead allDead wf this]
      obtain t' where t': "scanLeft g (t + 1) = Inr t'" "t + 1 \<le> t'"
        "t + 1 \<le> colCount g \<longrightarrow> t' \<le> colCount g"
        "\<forall>r c. t + 1 \<le> c \<and> c < t' \<longrightarrow> \<not> alive g r c"
        "t' < colCount g \<longrightarrow> (\<exists>r. alive g r t')"
        by blast
      have "scanLeft g t = Inr t'"
        using True allDead t'(1) by (subst scanLeft.simps) (simp add: ext dead)
      moreover have "\<forall>r c. t \<le> c \<and> c < t' \<longrightarrow> \<not> alive g r c"
      proof (intro allI impI)
        fix r c assume "t \<le> c \<and> c < t'"
        then consider "c = t" | "t + 1 \<le> c \<and> c < t'" by linarith
        then show "\<not> alive g r c" using allDead t'(4) by cases auto
      qed
      ultimately show ?thesis using t' True by auto
    qed
  qed
qed

lemma scanBottom_wf:
  "wf_grid g \<Longrightarrow> 0 \<le> t \<Longrightarrow> b < rowCount g \<Longrightarrow>
     \<exists>b'. scanBottom g t b = Inr b' \<and> b' \<le> b \<and> (b \<le> t \<longrightarrow> b' = b) \<and> (t \<le> b \<longrightarrow> t \<le> b') \<and>
       (\<forall>r c. b' < r \<and> r \<le> b \<longrightarrow> \<not> alive g r c) \<and>
       (t < b' \<longrightarrow> (\<exists>c. alive g b' c))"
proof (induction g t b rule: scanBottom.induct)
  case (1 g t b)
  note wf = "1.prems"(1)
  have ext: "py_get (extent g) 0 = Inr (rowCount g)"
    using wf_gridD(1,7) [OF wf] by simp
  show ?case
  proof (cases "t < b")
    case False
    then show ?thesis
      by (subst scanBottom.simps) (auto simp: ext)
  next
    case True
    then have cond: "b < rowCount g \<and> t < b" using "1.prems"(3) by simp
    have "0 \<le> b" using True "1.prems"(2) by simp
    then have dead: "testRowIsDead g b = Inr (\<forall>c. \<not> alive g b c)"
      using testRowIsDead_wf [OF wf _ "1.prems"(3)] by simp
    show ?thesis
    proof (cases "\<forall>c. \<not> alive g b c")
      case False
      then show ?thesis
        using cond by (subst scanBottom.simps) (auto simp: ext dead)
    next
      case allDead: True
      have "b - 1 < rowCount g" using "1.prems"(3) by simp
      from "1.IH" [OF ext cond dead allDead wf "1.prems"(2) this]
      obtain b' where b': "scanBottom g t (b - 1) = Inr b'" "b' \<le> b - 1"
        "b - 1 \<le> t \<longrightarrow> b' = b - 1" "t \<le> b - 1 \<longrightarrow> t \<le> b'"
        "\<forall>r c. b' < r \<and> r \<le> b - 1 \<longrightarrow> \<not> alive g r c"
        "t < b' \<longrightarrow> (\<exists>c. alive g b' c)"
        by blast
      have "scanBottom g t b = Inr b'"
        using cond allDead b'(1) by (subst scanBottom.simps) (simp add: ext dead)
      moreover have "\<forall>r c. b' < r \<and> r \<le> b \<longrightarrow> \<not> alive g r c"
      proof (intro allI impI)
        fix r c assume "b' < r \<and> r \<le> b"
        then consider "r = b" | "b' < r \<and> r \<le> b - 1" by linarith
        then show "\<not> alive g r c" using allDead b'(5) by cases auto
      qed
      ultimately show ?thesis using b' True by auto
    qed
  qed
qed

lemma scanRight_wf:
  "wf_grid g \<Longrightarrow> 0 \<le> t \<Longrightarrow> b < colCount g \<Longrightarrow>
     \<exists>b'. scanRight g t b = Inr b' \<and> b' \<le> b \<and> (b \<le> t \<longrightarrow> b' = b) \<and> (t \<le> b \<longrightarrow> t \<le> b') \<and>
       (\<forall>r c. b' < c \<and> c \<le> b \<longrightarrow> \<not> alive g r c) \<and>
       (t < b' \<longrightarrow> (\<exists>r. alive g r b'))"
proof (induction g t b rule: scanRight.induct)
  case (1 g t b)
  note wf = "1.prems"(1)
  have ext: "py_get (extent g) 1 = Inr (colCount g)"
    using wf_gridD(2) [OF wf] by simp
  show ?case
  proof (cases "t < b")
    case False
    then show ?thesis
      by (subst scanRight.simps) (auto simp: ext)
  next
    case True
    then have cond: "b < colCount g \<and> t < b" using "1.prems"(3) by simp
    have "0 \<le> b" using True "1.prems"(2) by simp
    then have dead: "testColumnIsDead g b = Inr (\<forall>r. \<not> alive g r b)"
      using testColumnIsDead_wf [OF wf _ "1.prems"(3)] by simp
    show ?thesis
    proof (cases "\<forall>r. \<not> alive g r b")
      case False
      then show ?thesis
        using cond by (subst scanRight.simps) (auto simp: ext dead)
    next
      case allDead: True
      have "b - 1 < colCount g" using "1.prems"(3) by simp
      from "1.IH" [OF ext cond dead allDead wf "1.prems"(2) this]
      obtain b' where b': "scanRight g t (b - 1) = Inr b'" "b' \<le> b - 1"
        "b - 1 \<le> t \<longrightarrow> b' = b - 1" "t \<le> b - 1 \<longrightarrow> t \<le> b'"
        "\<forall>r c. b' < c \<and> c \<le> b - 1 \<longrightarrow> \<not> alive g r c"
        "t < b' \<longrightarrow> (\<exists>r. alive g r b')"
        by blast
      have "scanRight g t b = Inr b'"
        using cond allDead b'(1) by (subst scanRight.simps) (simp add: ext dead)
      moreover have "\<forall>r c. b' < c \<and> c \<le> b \<longrightarrow> \<not> alive g r c"
      proof (intro allI impI)
        fix r c assume "b' < c \<and> c \<le> b"
        then consider "c = b" | "b' < c \<and> c \<le> b - 1" by linarith
        then show "\<not> alive g r c" using allDead b'(5) by cases auto
      qed
      ultimately show ?thesis using b' True by auto
    qed
  qed
qed

lemma scan_rows:
  assumes wf: "wf_grid g"
  shows "\<exists>t b. scanTop g 0 = Inr t \<and> scanBottom g t (rowCount g - 1) = Inr b \<and>
           0 \<le> t \<and> t \<le> b + 1 \<and> b < rowCount g \<and>
           (\<forall>i j. alive g i j \<longrightarrow> t \<le> i \<and> i \<le> b) \<and>
           ((\<exists>i j. alive g i j) \<longrightarrow> (\<exists>j. alive g t j) \<and> (\<exists>j. alive g b j)) \<and>
           ((\<forall>i j. \<not> alive g i j) \<longrightarrow> t = rowCount g \<and> b = rowCount g - 1)"
proof -
  have R0: "0 \<le> rowCount g" using wf_gridD(7) [OF wf] by simp
  from scanTop_wf [OF wf, of 0] R0
  obtain t where t: "scanTop g 0 = Inr t" "0 \<le> t" "t \<le> rowCount g"
    "\<forall>r c. 0 \<le> r \<and> r < t \<longrightarrow> \<not> alive g r c" "t < rowCount g \<longrightarrow> (\<exists>c. alive g t c)"
    by auto
  from scanBottom_wf [OF wf t(2), of "rowCount g - 1"]
  obtain b where b: "scanBottom g t (rowCount g - 1) = Inr b" "b \<le> rowCount g - 1"
    "rowCount g - 1 \<le> t \<longrightarrow> b = rowCount g - 1" "t \<le> rowCount g - 1 \<longrightarrow> t \<le> b"
    "\<forall>r c. b < r \<and> r \<le> rowCount g - 1 \<longrightarrow> \<not> alive g r c" "t < b \<longrightarrow> (\<exists>c. alive g b c)"
    by auto
  have in_rows: "alive g i j \<Longrightarrow> 0 \<le> i \<and> i < rowCount g" for i j
    by (simp add: alive_wf [OF wf])
  have bounds: "t \<le> i \<and> i \<le> b" if "alive g i j" for i j
  proof -
    have "\<not> (0 \<le> i \<and> i < t)" using t(4) that by blast
    moreover have "\<not> (b < i \<and> i \<le> rowCount g - 1)" using b(5) that by blast
    ultimately show ?thesis using in_rows [OF that] by linarith
  qed
  have some: "(\<exists>j. alive g t j) \<and> (\<exists>j. alive g b j)" if "alive g i j" for i j
  proof -
    from bounds [OF that] in_rows [OF that] have lt: "t < rowCount g" by linarith
    with t(5) have at: "\<exists>c. alive g t c" by simp
    have "t \<le> b" using bounds [OF that] by linarith
    then consider "t < b" | "t = b" by linarith
    then have "\<exists>c. alive g b c" using b(6) at by cases auto
    with at show ?thesis by simp
  qed
  have none: "t = rowCount g \<and> b = rowCount g - 1" if "\<forall>i j. \<not> alive g i j"
  proof -
    have "\<not> t < rowCount g" using t(5) that by blast
    with t(3) have "t = rowCount g" by simp
    with b(3) show ?thesis by simp
  qed
  have tb: "t \<le> b + 1" using b(3,4) t(3) by linarith
  have bR: "b < rowCount g" using b(2) by simp
  have c1: "\<forall>i j. alive g i j \<longrightarrow> t \<le> i \<and> i \<le> b" using bounds by blast
  have c2: "(\<exists>i j. alive g i j) \<longrightarrow> (\<exists>j. alive g t j) \<and> (\<exists>j. alive g b j)"
    using some by blast
  have c3: "(\<forall>i j. \<not> alive g i j) \<longrightarrow> t = rowCount g \<and> b = rowCount g - 1"
    using none by blast
  show ?thesis
    by (intro exI [of _ t] exI [of _ b] conjI) (fact t(1) b(1) t(2) tb bR c1 c2 c3)+
qed


lemma scan_cols:
  assumes wf: "wf_grid g"
  shows "\<exists>l r. scanLeft g 0 = Inr l \<and> scanRight g l (colCount g - 1) = Inr r \<and>
           0 \<le> l \<and> l \<le> r + 1 \<and> r < colCount g \<and>
           (\<forall>i j. alive g i j \<longrightarrow> l \<le> j \<and> j \<le> r) \<and>
           ((\<exists>i j. alive g i j) \<longrightarrow> (\<exists>i. alive g i l) \<and> (\<exists>i. alive g i r)) \<and>
           ((\<forall>i j. \<not> alive g i j) \<longrightarrow> l = colCount g \<and> r = colCount g - 1)"
proof -
  have C0: "0 \<le> colCount g" using wf_gridD(8) [OF wf] by simp
  from scanLeft_wf [OF wf, of 0] C0
  obtain l where l: "scanLeft g 0 = Inr l" "0 \<le> l" "l \<le> colCount g"
    "\<forall>i j. 0 \<le> j \<and> j < l \<longrightarrow> \<not> alive g i j" "l < colCount g \<longrightarrow> (\<exists>i. alive g i l)"
    by auto
  from scanRight_wf [OF wf l(2), of "colCount g - 1"]
  obtain r where r: "scanRight g l (colCount g - 1) = Inr r" "r \<le> colCount g - 1"
    "colCount g - 1 \<le> l \<longrightarrow> r = colCount g - 1" "l \<le> colCount g - 1 \<longrightarrow> l \<le> r"
    "\<forall>i j. r < j \<and> j \<le> colCount g - 1 \<longrightarrow> \<not> alive g i j" "l < r \<longrightarrow> (\<exists>i. alive g i r)"
    by auto
  have in_cols: "alive g i j \<Longrightarrow> 0 \<le> j \<and> j < colCount g" for i j
    by (simp add: alive_wf [OF wf])
  have bounds: "l \<le> j \<and> j \<le> r" if "alive g i j" for i j
  proof -
    have "\<not> (0 \<le> j \<and> j < l)" using l(4) that by blast
    moreover have "\<not> (r < j \<and> j \<le> colCount g - 1)" using r(5) that by blast
    ultimately show ?thesis using in_cols [OF that] by linarith
  qed
  have some: "(\<exists>i. alive g i l) \<and> (\<exists>i. alive g i r)" if "alive g i j" for i j
  proof -
    from bounds [OF that] in_cols [OF that] have lt: "l < colCount g" by linarith
    with l(5) have at: "\<exists>i. alive g i l" by simp
    have "l \<le> r" using bounds [OF that] by linarith
    then consider "l < r" | "l = r" by linarith
    then have "\<exists>i. alive g i r" using r(6) at by cases auto
    with at show ?thesis by simp
  qed
  have none: "l = colCount g \<and> r = colCount g - 1" if "\<forall>i j. \<not> alive g i j"
  proof -
    have "\<not> l < colCount g" using l(5) that by blast
    with l(3) have "l = colCount g" by simp
    with r(3) show ?thesis by simp
  qed
  have lr: "l \<le> r + 1" using r(3,4) l(3) by linarith
  have rC: "r < colCount g" using r(2) by simp
  have c1: "\<forall>i j. alive g i j \<longrightarrow> l \<le> j \<and> j \<le> r" using bounds by blast
  have c2: "(\<exists>i j. alive g i j) \<longrightarrow> (\<exists>i. alive g i l) \<and> (\<exists>i. alive g i r)"
    using some by blast
  have c3: "(\<forall>i j. \<not> alive g i j) \<longrightarrow> l = colCount g \<and> r = colCount g - 1"
    using none by blast
  show ?thesis
    by (intro exI [of _ l] exI [of _ r] conjI) (fact l(1) r(1) l(2) lr rC c1 c2 c3)+
qed

text \<open>The bounds of the live region that the scans find, and the deficits computed
  from them.\<close>

lemma computeDeficits_wf:
  assumes wf: "wf_grid g"
  shows "\<exists>t b l r.
           computeDeficits g =
             Inr (north g - t, east g - (colCount g - r - 1),
                  south g - (rowCount g - b - 1), west g - l) \<and>
           0 \<le> t \<and> t \<le> b + 1 \<and> b < rowCount g \<and>
           0 \<le> l \<and> l \<le> r + 1 \<and> r < colCount g \<and>
           (\<forall>i j. alive g i j \<longrightarrow> t \<le> i \<and> i \<le> b \<and> l \<le> j \<and> j \<le> r) \<and>
           ((\<exists>i j. alive g i j) \<longrightarrow>
              (\<exists>j. alive g t j) \<and> (\<exists>j. alive g b j) \<and> (\<exists>i. alive g i l) \<and> (\<exists>i. alive g i r)) \<and>
           ((\<forall>i j. \<not> alive g i j) \<longrightarrow>
              t = rowCount g \<and> b = rowCount g - 1 \<and> l = colCount g \<and> r = colCount g - 1)"
proof -
  from scan_rows [OF wf] obtain t b where
    tb: "scanTop g 0 = Inr t" "scanBottom g t (rowCount g - 1) = Inr b"
      "0 \<le> t" "t \<le> b + 1" "b < rowCount g"
      "\<forall>i j. alive g i j \<longrightarrow> t \<le> i \<and> i \<le> b"
      "(\<exists>i j. alive g i j) \<longrightarrow> (\<exists>j. alive g t j) \<and> (\<exists>j. alive g b j)"
      "(\<forall>i j. \<not> alive g i j) \<longrightarrow> t = rowCount g \<and> b = rowCount g - 1"
    by blast
  from scan_cols [OF wf] obtain l r where
    lr: "scanLeft g 0 = Inr l" "scanRight g l (colCount g - 1) = Inr r"
      "0 \<le> l" "l \<le> r + 1" "r < colCount g"
      "\<forall>i j. alive g i j \<longrightarrow> l \<le> j \<and> j \<le> r"
      "(\<exists>i j. alive g i j) \<longrightarrow> (\<exists>i. alive g i l) \<and> (\<exists>i. alive g i r)"
      "(\<forall>i j. \<not> alive g i j) \<longrightarrow> l = colCount g \<and> r = colCount g - 1"
    by blast
  have ext0: "py_get (extent g) 0 = Inr (rowCount g)"
    using wf_gridD(1,7) [OF wf] by simp
  have eq: "computeDeficits g =
      Inr (north g - t, east g - (colCount g - r - 1),
           south g - (rowCount g - b - 1), west g - l)"
    using tb(1,2) lr(1,2)
    by (simp add: computeDeficits_def ext0 wf_gridD(2-6) [OF wf])
  have c1: "\<forall>i j. alive g i j \<longrightarrow> t \<le> i \<and> i \<le> b \<and> l \<le> j \<and> j \<le> r"
    using tb(6) lr(6) by blast
  have c2: "(\<exists>i j. alive g i j) \<longrightarrow>
      (\<exists>j. alive g t j) \<and> (\<exists>j. alive g b j) \<and> (\<exists>i. alive g i l) \<and> (\<exists>i. alive g i r)"
    using tb(7) lr(7) by blast
  have c3: "(\<forall>i j. \<not> alive g i j) \<longrightarrow>
      t = rowCount g \<and> b = rowCount g - 1 \<and> l = colCount g \<and> r = colCount g - 1"
    using tb(8) lr(8) by blast
  show ?thesis
    by (intro exI [of _ t] exI [of _ b] exI [of _ l] exI [of _ r] conjI)
       (fact eq tb(3-5) lr(3-5) c1 c2 c3)+
qed

section \<open>The loops of margin maintenance\<close>

lemma forEach_const:
  assumes "\<And>x s. body x s = step s"
  shows "forEach xs body s = forEach (replicate (length xs) ()) (\<lambda>_. step) s"
  using assms by (induction xs arbitrary: s) (simp_all split: sum.splits)

lemma forEach_addARow_front:
  assumes "py_get (extent g) 1 = Inr n"
  shows "forEach xs (\<lambda>i g. addARow 0 g) g =
           Inr (g\<lparr>rows := replicate (length xs) (replicate (nat n) False) @ rows g\<rparr>)"
  using assms
proof (induction xs arbitrary: g)
  case Nil
  then show ?case by simp
next
  case (Cons x xs)
  let ?g = "g\<lparr>rows := replicate (nat n) False # rows g\<rparr>"
  have step: "addARow 0 g = Inr ?g"
    using Cons.prems by (simp add: addARow_def py_insert_def)
  have "py_get (extent ?g) 1 = Inr n" using Cons.prems by simp
  from Cons.IH [OF this] show ?case
    by (simp add: step replicate_app_Cons_same)
qed

lemma forEach_addARow_back:
  assumes "py_get (extent g) 1 = Inr n"
  shows "forEach xs (\<lambda>i g. addARow (int (length (rows g))) g) g =
           Inr (g\<lparr>rows := rows g @ replicate (length xs) (replicate (nat n) False)\<rparr>)"
  using assms
proof (induction xs arbitrary: g)
  case Nil
  then show ?case by simp
next
  case (Cons x xs)
  let ?g = "g\<lparr>rows := rows g @ [replicate (nat n) False]\<rparr>"
  have step: "addARow (int (length (rows g))) g = Inr ?g"
    using Cons.prems by (simp add: addARow_def py_insert_def)
  have "py_get (extent ?g) 1 = Inr n" using Cons.prems by simp
  from Cons.IH [OF this] show ?case
    by (simp add: step)
qed

lemma py_pop_front: "xs \<noteq> [] \<Longrightarrow> py_pop xs 0 = Inr (tl xs)"
  by (cases xs) (simp_all add: py_pop_def py_index_def)

lemma py_pop_back: "xs \<noteq> [] \<Longrightarrow> py_pop xs (int (length xs) - 1) = Inr (butlast xs)"
  by (cases xs rule: rev_cases) (simp_all add: py_pop_def py_index_def)

lemma forEach_trimARow_front:
  assumes "length xs \<le> length (rows g)"
  shows "forEach xs (\<lambda>i g. trimARow 0 g) g = Inr (g\<lparr>rows := drop (length xs) (rows g)\<rparr>)"
  using assms
proof (induction xs arbitrary: g)
  case Nil
  then show ?case by simp
next
  case (Cons x xs)
  then have ne: "rows g \<noteq> []" by auto
  let ?g = "g\<lparr>rows := tl (rows g)\<rparr>"
  have step: "trimARow 0 g = Inr ?g"
    using ne by (simp add: trimARow_def py_pop_front)
  have "length xs \<le> length (rows ?g)" using Cons.prems by simp
  from Cons.IH [OF this] show ?case
    by (simp add: step drop_Suc)
qed

lemma forEach_trimARow_back:
  assumes "length xs \<le> length (rows g)"
  shows "forEach xs (\<lambda>i g. trimARow (int (length (rows g)) - 1) g) g =
           Inr (g\<lparr>rows := take (length (rows g) - length xs) (rows g)\<rparr>)"
  using assms
proof (induction xs arbitrary: g)
  case Nil
  then show ?case by simp
next
  case (Cons x xs)
  then have ne: "rows g \<noteq> []" by auto
  let ?g = "g\<lparr>rows := butlast (rows g)\<rparr>"
  have step: "trimARow (int (length (rows g)) - 1) g = Inr ?g"
    using ne by (simp add: trimARow_def py_pop_back)
  have "length xs \<le> length (rows ?g)" using Cons.prems by simp
  from Cons.IH [OF this] show ?case
    by (simp add: step butlast_conv_take take_take min_def) 
qed


lemma update_mapped_prefix:
  assumes "k < length xs"
  shows "(map h (take k xs) @ drop k xs)[k := h (xs ! k)] =
           map h (take (Suc k) xs) @ drop (Suc k) xs"
proof -
  have d: "drop k xs = xs ! k # drop (Suc k) xs"
    using assms by (simp add: Cons_nth_drop_Suc)
  have l: "length (map h (take k xs)) = k" using assms by simp
  have "(map h (take k xs) @ drop k xs)[k := h (xs ! k)] =
          map h (take k xs) @ (drop k xs)[0 := h (xs ! k)]"
    using l by (simp add: list_update_append)
  also have "\<dots> = map h (take k xs) @ h (xs ! k) # drop (Suc k) xs"
    by (subst d) simp
  also have "\<dots> = map h (take (Suc k) xs) @ drop (Suc k) xs"
    using assms by (simp add: take_Suc_conv_app_nth)
  finally show ?thesis .
qed

lemma forEach_rows:
  assumes body: "\<And>r g. r < length (rows g) \<Longrightarrow> P (rows g ! r) \<Longrightarrow>
                   body (int r) g = Inr (g\<lparr>rows := (rows g)[r := h (rows g ! r)]\<rparr>)"
    and all: "\<forall>rw \<in> set (rows g). P rw"
  shows "k \<le> length (rows g) \<Longrightarrow>
           forEach (map int [0 ..< k]) body g =
             Inr (g\<lparr>rows := map h (take k (rows g)) @ drop k (rows g)\<rparr>)"
proof (induction k)
  case 0
  then show ?case by simp
next
  case (Suc k)
  let ?gk = "g\<lparr>rows := map h (take k (rows g)) @ drop k (rows g)\<rparr>"
  have k: "k < length (rows g)" using Suc.prems by simp
  have first: "forEach (map int [0 ..< k]) body g = Inr ?gk"
    using Suc by simp
  have nth: "rows ?gk ! k = rows g ! k"
    using k by (simp add: nth_append)
  have "P (rows g ! k)" using all k by simp
  then have "body (int k) ?gk = Inr (?gk\<lparr>rows := (rows ?gk)[k := h (rows ?gk ! k)]\<rparr>)"
    using body [of k ?gk] k nth by simp
  then have "body (int k) ?gk =
      Inr (g\<lparr>rows := map h (take (Suc k) (rows g)) @ drop (Suc k) (rows g)\<rparr>)"
    using update_mapped_prefix [OF k, of h] nth by simp
  then show ?case
    by (simp add: forEach_append first)
qed

lemma py_set_nat: "r < length xs \<Longrightarrow> py_set xs (int r) v = Inr (xs[r := v])"
  by (simp add: py_set_def py_index_def)

lemma addAColumn_wf:
  assumes "py_get (extent g) 0 = Inr (int (length (rows g)))"
  shows "addAColumn i g = Inr (g\<lparr>rows := map (\<lambda>rw. py_insert rw i False) (rows g)\<rparr>)"
proof -
  have "forEach (map int [0 ..< length (rows g)])
          (\<lambda>r g. bindE (py_get (rows g) r) (\<lambda>rw.
                  bindE (py_set (rows g) r (py_insert rw i False)) (\<lambda>rs.
                    Inr (g\<lparr>rows := rs\<rparr>)))) g =
        Inr (g\<lparr>rows := map (\<lambda>rw. py_insert rw i False) (take (length (rows g)) (rows g))
                          @ drop (length (rows g)) (rows g)\<rparr>)"
    by (rule forEach_rows [where P = "\<lambda>rw. True"]) (simp_all add: py_set_nat)
  then show ?thesis
    using assms by (simp add: addAColumn_def py_range_int)
qed

lemma trimAColumn_wf:
  assumes "py_get (extent g) 0 = Inr (int (length (rows g)))"
    and "\<forall>rw \<in> set (rows g). py_pop rw i = Inr (h rw)"
  shows "trimAColumn i g = Inr (g\<lparr>rows := map h (rows g)\<rparr>)"
proof -
  have "forEach (map int [0 ..< length (rows g)])
          (\<lambda>r g. bindE (py_get (rows g) r) (\<lambda>rw.
                  bindE (py_pop rw i) (\<lambda>rw'.
                  bindE (py_set (rows g) r rw') (\<lambda>rs.
                    Inr (g\<lparr>rows := rs\<rparr>))))) g =
        Inr (g\<lparr>rows := map h (take (length (rows g)) (rows g))
                          @ drop (length (rows g)) (rows g)\<rparr>)"
    by (rule forEach_rows [where P = "\<lambda>rw. py_pop rw i = Inr (h rw)"])
       (simp_all add: py_set_nat assms(2))
  then show ?thesis
    using assms(1) by (simp add: trimAColumn_def py_range_int)
qed


lemma forEach_addAColumn_front:
  assumes "py_get (extent g) 0 = Inr (int (length (rows g)))"
  shows "forEach xs (\<lambda>i g. addAColumn 0 g) g =
           Inr (g\<lparr>rows := map (\<lambda>rw. replicate (length xs) False @ rw) (rows g)\<rparr>)"
  using assms
proof (induction xs arbitrary: g)
  case Nil
  then show ?case by simp
next
  case (Cons x xs)
  let ?g = "g\<lparr>rows := map (\<lambda>rw. False # rw) (rows g)\<rparr>"
  have step: "addAColumn 0 g = Inr ?g"
    using addAColumn_wf [OF Cons.prems, of 0] by (simp add: py_insert_def)
  have "py_get (extent ?g) 0 = Inr (int (length (rows ?g)))" using Cons.prems by simp
  from Cons.IH [OF this] show ?case
    by (simp add: step replicate_app_Cons_same comp_def)
qed

lemma forEach_trimAColumn_front:
  assumes "py_get (extent g) 0 = Inr (int (length (rows g)))"
    and "\<forall>rw \<in> set (rows g). length xs \<le> length rw"
  shows "forEach xs (\<lambda>i g. trimAColumn 0 g) g =
           Inr (g\<lparr>rows := map (drop (length xs)) (rows g)\<rparr>)"
  using assms
proof (induction xs arbitrary: g)
  case Nil
  then show ?case by simp
next
  case (Cons x xs)
  let ?g = "g\<lparr>rows := map tl (rows g)\<rparr>"
  have "\<forall>rw \<in> set (rows g). py_pop rw 0 = Inr (tl rw)"
    using Cons.prems(2) by (auto intro!: py_pop_front)
  then have step: "trimAColumn 0 g = Inr ?g"
    using trimAColumn_wf [OF Cons.prems(1), of 0 tl] by simp
  have "py_get (extent ?g) 0 = Inr (int (length (rows ?g)))" using Cons.prems(1) by simp
  moreover have "\<forall>rw \<in> set (rows ?g). length xs \<le> length rw"
    using Cons.prems(2) by auto
  ultimately have "forEach xs (\<lambda>i g. trimAColumn 0 g) ?g =
      Inr (?g\<lparr>rows := map (drop (length xs)) (rows ?g)\<rparr>)"
    by (rule Cons.IH)
  then show ?case
    by (simp add: step drop_Suc comp_def)
qed

lemma forEach_addAColumn_back:
  assumes "py_get (extent g) 0 = Inr (int (length (rows g)))"
    and "rows g \<noteq> []"
    and "\<forall>rw \<in> set (rows g). length rw = n"
  shows "forEach xs (\<lambda>i g. bindE (py_get (rows g) 0) (\<lambda>rw. addAColumn (int (length rw)) g)) g =
           Inr (g\<lparr>rows := map (\<lambda>rw. rw @ replicate (length xs) False) (rows g)\<rparr>)"
  using assms
proof (induction xs arbitrary: g n)
  case Nil
  then show ?case by simp
next
  case (Cons x xs)
  let ?g = "g\<lparr>rows := map (\<lambda>rw. rw @ [False]) (rows g)\<rparr>"
  have first: "py_get (rows g) 0 = Inr (rows g ! 0)" and len: "length (rows g ! 0) = n"
    using Cons.prems(2,3) by simp_all
  have "map (\<lambda>rw. py_insert rw (int n) False) (rows g) = map (\<lambda>rw. rw @ [False]) (rows g)"
    using Cons.prems(3) by (simp add: py_insert_def)
  then have step: "addAColumn (int n) g = Inr ?g"
    using addAColumn_wf [OF Cons.prems(1), of "int n"] by simp
  have "py_get (extent ?g) 0 = Inr (int (length (rows ?g)))" using Cons.prems(1) by simp
  moreover have "rows ?g \<noteq> []" using Cons.prems(2) by simp
  moreover have "\<forall>rw \<in> set (rows ?g). length rw = Suc n" using Cons.prems(3) by auto
  ultimately have "forEach xs
      (\<lambda>i g. bindE (py_get (rows g) 0) (\<lambda>rw. addAColumn (int (length rw)) g)) ?g =
      Inr (?g\<lparr>rows := map (\<lambda>rw. rw @ replicate (length xs) False) (rows ?g)\<rparr>)"
    by (rule Cons.IH)
  then show ?case
    by (simp add: first len step comp_def replicate_append_same [symmetric])
qed

lemma forEach_trimAColumn_back:
  assumes "py_get (extent g) 0 = Inr (int (length (rows g)))"
    and "rows g \<noteq> []"
    and "\<forall>rw \<in> set (rows g). length rw = n"
    and "length xs \<le> n"
  shows "forEach xs
           (\<lambda>i g. bindE (py_get (rows g) 0) (\<lambda>rw. trimAColumn (int (length rw) - 1) g)) g =
           Inr (g\<lparr>rows := map (\<lambda>rw. take (length rw - length xs) rw) (rows g)\<rparr>)"
  using assms
proof (induction xs arbitrary: g n)
  case Nil
  then show ?case by simp
next
  case (Cons x xs)
  let ?g = "g\<lparr>rows := map butlast (rows g)\<rparr>"
  have first: "py_get (rows g) 0 = Inr (rows g ! 0)" and len: "length (rows g ! 0) = n"
    using Cons.prems(2,3) by simp_all
  have n: "0 < n" using Cons.prems(4) by simp
  have "\<forall>rw \<in> set (rows g). py_pop rw (int n - 1) = Inr (butlast rw)"
  proof
    fix rw assume "rw \<in> set (rows g)"
    then have "length rw = n" using Cons.prems(3) by simp
    with n show "py_pop rw (int n - 1) = Inr (butlast rw)"
      using py_pop_back [of rw] by auto
  qed
  then have step: "trimAColumn (int n - 1) g = Inr ?g"
    using trimAColumn_wf [OF Cons.prems(1), of "int n - 1" butlast] by simp
  have "py_get (extent ?g) 0 = Inr (int (length (rows ?g)))" using Cons.prems(1) by simp
  moreover have "rows ?g \<noteq> []" using Cons.prems(2) by simp
  moreover have "\<forall>rw \<in> set (rows ?g). length rw = n - 1" using Cons.prems(3) by auto
  moreover have "length xs \<le> n - 1" using Cons.prems(4) by simp
  ultimately have "forEach xs
      (\<lambda>i g. bindE (py_get (rows g) 0) (\<lambda>rw. trimAColumn (int (length rw) - 1) g)) ?g =
      Inr (?g\<lparr>rows := map (\<lambda>rw. take (length rw - length xs) rw) (rows ?g)\<rparr>)"
    by (rule Cons.IH)
  then show ?case
    by (simp add: first len step comp_def butlast_conv_take take_take min_def)
qed


lemma adjust_keep:
  "\<not> 0 < d \<Longrightarrow> adjustFront d False blank = (\<lambda>xs. xs)"
  "\<not> 0 < d \<Longrightarrow> adjustBack d False blank = (\<lambda>xs. xs)"
  by (simp_all add: fun_eq_iff adjustFront_def adjustBack_def)

lemma adjust_fun:
  "0 < d \<Longrightarrow> adjustFront d trim blank = (\<lambda>xs. replicate (nat d) blank @ xs)"
  "\<not> 0 < d \<Longrightarrow> adjustFront d True blank = drop (nat (- d))"
  "0 < d \<Longrightarrow> adjustBack d trim blank = (\<lambda>xs. xs @ replicate (nat d) blank)"
  "\<not> 0 < d \<Longrightarrow> adjustBack d True blank = (\<lambda>xs. take (length xs - nat (- d)) xs)"
  by (simp_all add: fun_eq_iff adjustFront_def adjustBack_def)

lemma north_stage:
  assumes "py_get (extent g) 1 = Inr n"
    and "trim \<and> d \<le> 0 \<longrightarrow> nat (- d) \<le> length (rows g)"
  shows "forEach (py_range \<bar>d\<bar>)
           (\<lambda>i g. if d > 0 then addARow 0 g else if trim then trimARow 0 g else Inr g) g =
         Inr (g\<lparr>rows := adjustFront d trim (replicate (nat n) False) (rows g)\<rparr>)"
proof (cases "d > 0")
  case True
  then show ?thesis
    using forEach_addARow_front [OF assms(1), of "py_range \<bar>d\<bar>"]
    by (simp add: adjustFront_def)
next
  case False
  show ?thesis
  proof (cases trim)
    case True
    with False assms(2) have "length (py_range \<bar>d\<bar>) \<le> length (rows g)" by simp
    from forEach_trimARow_front [OF this] show ?thesis
      using False True by (simp add: adjustFront_def)
  next
    case nt: False
    have "forEach (py_range \<bar>d\<bar>) (\<lambda>i g. Inr g) g = Inr g"
      by (rule forEach_skip) simp
    then show ?thesis using False nt by (simp add: adjustFront_def)
  qed
qed

lemma south_stage:
  assumes "py_get (extent g) 1 = Inr n"
    and "trim \<and> d \<le> 0 \<longrightarrow> nat (- d) \<le> length (rows g)"
  shows "forEach (py_range \<bar>d\<bar>)
           (\<lambda>i g. if d > 0 then addARow (int (length (rows g))) g
                   else if trim then trimARow (int (length (rows g)) - 1) g
                   else Inr g) g =
         Inr (g\<lparr>rows := adjustBack d trim (replicate (nat n) False) (rows g)\<rparr>)"
proof (cases "d > 0")
  case True
  then show ?thesis
    using forEach_addARow_back [OF assms(1), of "py_range \<bar>d\<bar>"]
    by (simp add: adjustBack_def)
next
  case False
  show ?thesis
  proof (cases trim)
    case True
    with False assms(2) have "length (py_range \<bar>d\<bar>) \<le> length (rows g)" by simp
    from forEach_trimARow_back [OF this] show ?thesis
      using False True by (simp add: adjustBack_def)
  next
    case nt: False
    have "forEach (py_range \<bar>d\<bar>) (\<lambda>i g. Inr g) g = Inr g"
      by (rule forEach_skip) simp
    then show ?thesis using False nt by (simp add: adjustBack_def)
  qed
qed

lemma west_stage:
  assumes "py_get (extent g) 0 = Inr (int (length (rows g)))"
    and "trim \<and> d \<le> 0 \<longrightarrow> (\<forall>rw \<in> set (rows g). nat (- d) \<le> length rw)"
  shows "forEach (py_range \<bar>d\<bar>)
           (\<lambda>i g. if d > 0 then addAColumn 0 g else if trim then trimAColumn 0 g else Inr g) g =
         Inr (g\<lparr>rows := map (adjustFront d trim False) (rows g)\<rparr>)"
proof (cases "d > 0")
  case True
  then show ?thesis
    using forEach_addAColumn_front [OF assms(1), of "py_range \<bar>d\<bar>"]
    by (simp add: adjust_keep adjust_fun)
next
  case False
  show ?thesis
  proof (cases trim)
    case True
    with False assms(2)
    have "\<forall>rw \<in> set (rows g). length (py_range \<bar>d\<bar>) \<le> length rw" by simp
    from forEach_trimAColumn_front [OF assms(1) this] show ?thesis
      using False True by (simp add: adjust_keep adjust_fun)
  next
    case nt: False
    have "forEach (py_range \<bar>d\<bar>) (\<lambda>i g. Inr g) g = Inr g"
      by (rule forEach_skip) simp
    then show ?thesis using False nt by (simp add: adjust_keep adjust_fun)
  qed
qed

lemma east_stage:
  assumes "py_get (extent g) 0 = Inr (int (length (rows g)))"
    and "rows g \<noteq> []"
    and "\<forall>rw \<in> set (rows g). length rw = n"
    and "trim \<and> d \<le> 0 \<longrightarrow> nat (- d) \<le> n"
  shows "forEach (py_range \<bar>d\<bar>)
           (\<lambda>i g. if d > 0 then
                     bindE (py_get (rows g) 0) (\<lambda>rw. addAColumn (int (length rw)) g)
                   else if trim then
                     bindE (py_get (rows g) 0) (\<lambda>rw. trimAColumn (int (length rw) - 1) g)
                   else Inr g) g =
         Inr (g\<lparr>rows := map (adjustBack d trim False) (rows g)\<rparr>)"
proof (cases "d > 0")
  case True
  then show ?thesis
    using forEach_addAColumn_back [OF assms(1-3), of "py_range \<bar>d\<bar>"]
    by (simp add: adjust_keep adjust_fun)
next
  case False
  show ?thesis
  proof (cases trim)
    case True
    with False assms(4) have "length (py_range \<bar>d\<bar>) \<le> n" by simp
    from forEach_trimAColumn_back [OF assms(1-3) this] show ?thesis
      using False True by (simp add: adjust_keep adjust_fun)
  next
    case nt: False
    have "forEach (py_range \<bar>d\<bar>) (\<lambda>i g. Inr g) g = Inr g"
      by (rule forEach_skip) simp
    then show ?thesis using False nt by (simp add: adjust_keep adjust_fun)
  qed
qed


lemma length_adjustFront:
  assumes "trim \<and> d \<le> 0 \<longrightarrow> nat (- d) \<le> length xs"
  shows "int (length (adjustFront d trim blank xs)) = int (length xs) + shift d trim"
  using assms by (auto simp: adjustFront_def shift_def)

lemma length_adjustBack:
  assumes "trim \<and> d \<le> 0 \<longrightarrow> nat (- d) \<le> length xs"
  shows "int (length (adjustBack d trim blank xs)) = int (length xs) + shift d trim"
  using assms by (auto simp: adjustBack_def shift_def)

lemma adjustFront_nth:
  assumes valid: "trim \<and> d \<le> 0 \<longrightarrow> nat (- d) \<le> length xs"
    and blank: "\<not> P blank"
    and dropped: "trim \<and> d \<le> 0 \<longrightarrow> (\<forall>k < nat (- d). \<not> P (xs ! k))"
  shows "(0 \<le> i \<and> i < int (length (adjustFront d trim blank xs)) \<and>
            P (adjustFront d trim blank xs ! nat i)) \<longleftrightarrow>
         (0 \<le> i - shift d trim \<and> i - shift d trim < int (length xs) \<and>
            P (xs ! nat (i - shift d trim)))"
proof (cases "d > 0")
  case True
  then have sh: "shift d trim = d" by (simp add: shift_def)
  have a: "adjustFront d trim blank xs = replicate (nat d) blank @ xs"
    using True by (simp add: adjustFront_def)
  show ?thesis
  proof (cases "i < d")
    case True
    then have "0 \<le> i \<Longrightarrow> (replicate (nat d) blank @ xs) ! nat i = blank"
      by (simp add: nth_append)
    with True blank show ?thesis unfolding a sh by auto
  next
    case False
    then have "(replicate (nat d) blank @ xs) ! nat i = xs ! nat (i - d)"
      using \<open>d > 0\<close> by (simp add: nth_append nat_diff_distrib)
    with False \<open>d > 0\<close> show ?thesis unfolding a sh by auto
  qed
next
  case False
  show ?thesis
  proof (cases trim)
    case nt: False
    with False show ?thesis by (simp add: adjustFront_def shift_def)
  next
    case True
    with False have sh: "shift d trim = d" by (simp add: shift_def)
    have a: "adjustFront d trim blank xs = drop (nat (- d)) xs"
      using False True by (simp add: adjustFront_def)
    have k: "nat (- d) \<le> length xs" using valid False True by simp
    show ?thesis
    proof (cases "0 \<le> i")
      case True
      then have idx: "nat (- d) + nat i = nat (i - d)" using False by simp
      have "i < int (length xs) - int (nat (- d)) \<Longrightarrow> drop (nat (- d)) xs ! nat i = xs ! nat (i - d)"
        using k True idx by (simp add: nat_less_iff)
      with True False k show ?thesis unfolding a sh
        by (auto simp: of_nat_diff)
    next
      case neg: False
      have "\<not> P (xs ! nat (i - d))" if "0 \<le> i - d"
      proof -
        have "nat (i - d) < nat (- d)" using neg that by simp
        with dropped False True show ?thesis by simp
      qed
      with neg show ?thesis unfolding a sh by auto
    qed
  qed
qed

lemma adjustBack_nth:
  assumes valid: "trim \<and> d \<le> 0 \<longrightarrow> nat (- d) \<le> length xs"
    and blank: "\<not> P blank"
    and dropped: "trim \<and> d \<le> 0 \<longrightarrow>
                    (\<forall>k. length xs - nat (- d) \<le> k \<and> k < length xs \<longrightarrow> \<not> P (xs ! k))"
  shows "(0 \<le> i \<and> i < int (length (adjustBack d trim blank xs)) \<and>
            P (adjustBack d trim blank xs ! nat i)) \<longleftrightarrow>
         (0 \<le> i \<and> i < int (length xs) \<and> P (xs ! nat i))"
proof (cases "d > 0")
  case True
  have a: "adjustBack d trim blank xs = xs @ replicate (nat d) blank"
    using True by (simp add: adjustBack_def)
  show ?thesis
  proof (cases "i < int (length xs)")
    case lt: True
    then have "0 \<le> i \<Longrightarrow> (xs @ replicate (nat d) blank) ! nat i = xs ! nat i"
      by (simp add: nth_append nat_less_iff)
    with lt show ?thesis unfolding a by auto
  next
    case ge: False
    then have "i < int (length xs) + d \<Longrightarrow> (xs @ replicate (nat d) blank) ! nat i = blank"
      using True by (simp add: nth_append nat_less_iff)
    with ge blank True show ?thesis unfolding a by auto
  qed
next
  case False
  show ?thesis
  proof (cases trim)
    case nt: False
    with False show ?thesis by (simp add: adjustBack_def)
  next
    case True
    have a: "adjustBack d trim blank xs = take (length xs - nat (- d)) xs"
      using False True by (simp add: adjustBack_def)
    have k: "nat (- d) \<le> length xs" using valid False True by simp
    show ?thesis
    proof (cases "0 \<le> i \<and> i < int (length xs)")
      case out: False
      then show ?thesis unfolding a using k by auto
    next
      case inside: True
      show ?thesis
      proof (cases "nat i < length xs - nat (- d)")
        case lt: True
        then have "take (length xs - nat (- d)) xs ! nat i = xs ! nat i" by simp
        with lt inside k show ?thesis unfolding a by auto
      next
        case ge: False
        have "nat i < length xs" using inside by (simp add: nat_less_iff)
        moreover have "length xs - nat (- d) \<le> nat i" using ge by simp
        moreover have "d \<le> 0" using False by simp
        ultimately have "\<not> P (xs ! nat i)" using dropped True by blast
        moreover have "\<not> i < int (length (take (length xs - nat (- d)) xs))"
        proof -
          have "length (take (length xs - nat (- d)) xs) = length xs - nat (- d)" by simp
          with ge inside show ?thesis by linarith
        qed
        ultimately show ?thesis unfolding a by blast
      qed
    qed
  qed
qed

section \<open>The result of margin maintenance\<close>

lemma alive_liveIn:
  "alive g r c \<longleftrightarrow> 0 \<le> r \<and> r < int (length (rows g)) \<and> liveIn c (rows g ! nat r)"
  by (auto simp: alive_def liveIn_def)

lemma liveIn_blank [simp]: "\<not> liveIn c (replicate n False)"
  by (auto simp: liveIn_def)

text \<open>The rows after the north and south loops.\<close>

lemma rows_adjusted_alive:
  assumes validN: "trim \<and> dN \<le> 0 \<longrightarrow> nat (- dN) \<le> length (rows g)"
    and validS: "trim \<and> dS \<le> 0 \<longrightarrow> int (nat (- dS)) \<le> int (length (rows g)) + shift dN trim"
    and deadN: "trim \<and> dN \<le> 0 \<longrightarrow> (\<forall>i j. alive g i j \<longrightarrow> - dN \<le> i)"
    and deadS: "trim \<and> dS \<le> 0 \<longrightarrow> (\<forall>i j. alive g i j \<longrightarrow> i < int (length (rows g)) + dS)"
    and rs: "rows g' = adjustBack dS trim (replicate n False)
                         (adjustFront dN trim (replicate n False) (rows g))"
  shows "alive g' i j \<longleftrightarrow> alive g (i - shift dN trim) j"
proof -
  let ?b = "replicate n False"
  let ?r1 = "adjustFront dN trim ?b (rows g)"
  have front: "(0 \<le> k \<and> k < int (length ?r1) \<and> liveIn j (?r1 ! nat k)) \<longleftrightarrow>
               alive g (k - shift dN trim) j" for k
  proof -
    have "trim \<and> dN \<le> 0 \<longrightarrow> (\<forall>k < nat (- dN). \<not> liveIn j (rows g ! k))"
    proof (intro impI allI)
      fix k assume t: "trim \<and> dN \<le> 0" and k: "k < nat (- dN)"
      show "\<not> liveIn j (rows g ! k)"
      proof
        assume "liveIn j (rows g ! k)"
        moreover have "k < length (rows g)" using k validN t by simp
        ultimately have "alive g (int k) j" by (simp add: alive_liveIn)
        with deadN t have "- dN \<le> int k" by blast
        with k show False by simp
      qed
    qed
    from adjustFront_nth [where P = "liveIn j", OF validN liveIn_blank this]
    show ?thesis by (simp add: alive_liveIn)
  qed
  have len1: "int (length ?r1) = int (length (rows g)) + shift dN trim"
    by (rule length_adjustFront [OF validN])
  have validS': "trim \<and> dS \<le> 0 \<longrightarrow> nat (- dS) \<le> length ?r1"
    using validS len1 by linarith
  have "trim \<and> dS \<le> 0 \<longrightarrow>
          (\<forall>k. length ?r1 - nat (- dS) \<le> k \<and> k < length ?r1 \<longrightarrow> \<not> liveIn j (?r1 ! k))"
  proof (intro impI allI)
    fix k assume t: "trim \<and> dS \<le> 0" and k: "length ?r1 - nat (- dS) \<le> k \<and> k < length ?r1"
    show "\<not> liveIn j (?r1 ! k)"
    proof
      assume "liveIn j (?r1 ! k)"
      with k front [of "int k"] have "alive g (int k - shift dN trim) j" by simp
      with deadS t have "int k - shift dN trim < int (length (rows g)) + dS" by blast
      moreover have "int (length ?r1) - int (nat (- dS)) \<le> int k" using k by linarith
      ultimately show False using len1 t by simp
    qed
  qed
  from adjustBack_nth [where P = "liveIn j", OF validS' liveIn_blank this]
  have "(0 \<le> i \<and> i < int (length (rows g')) \<and> liveIn j (rows g' ! nat i)) \<longleftrightarrow>
        (0 \<le> i \<and> i < int (length ?r1) \<and> liveIn j (?r1 ! nat i))"
    by (simp add: rs)
  with front [of i] show ?thesis by (simp add: alive_liveIn)
qed


text \<open>The cells of one row after the west and east loops.\<close>

lemma row_adjusted_liveIn:
  assumes len: "length rw = n"
    and validW: "trim \<and> dW \<le> 0 \<longrightarrow> nat (- dW) \<le> n"
    and validE: "trim \<and> dE \<le> 0 \<longrightarrow> int (nat (- dE)) \<le> int n + shift dW trim"
    and deadW: "trim \<and> dW \<le> 0 \<longrightarrow> (\<forall>j. liveIn j rw \<longrightarrow> - dW \<le> j)"
    and deadE: "trim \<and> dE \<le> 0 \<longrightarrow> (\<forall>j. liveIn j rw \<longrightarrow> j < int n + dE)"
  shows "liveIn j (adjustBack dE trim False (adjustFront dW trim False rw)) \<longleftrightarrow>
         liveIn (j - shift dW trim) rw"
proof -
  let ?r1 = "adjustFront dW trim False rw"
  have vW: "trim \<and> dW \<le> 0 \<longrightarrow> nat (- dW) \<le> length rw" using validW len by simp
  have front: "(0 \<le> k \<and> k < int (length ?r1) \<and> ?r1 ! nat k) \<longleftrightarrow>
               liveIn (k - shift dW trim) rw" for k
  proof -
    have "trim \<and> dW \<le> 0 \<longrightarrow> (\<forall>k < nat (- dW). \<not> rw ! k)"
    proof (intro impI allI)
      fix k assume t: "trim \<and> dW \<le> 0" and k: "k < nat (- dW)"
      show "\<not> rw ! k"
      proof
        assume "rw ! k"
        moreover have "k < length rw" using k vW t by simp
        ultimately have "liveIn (int k) rw" by (simp add: liveIn_def)
        with deadW t have "- dW \<le> int k" by blast
        with k show False by simp
      qed
    qed
    from adjustFront_nth [where P = "\<lambda>b. b" and blank = False, OF vW _ this]
    show ?thesis by (simp add: liveIn_def)
  qed
  have len1: "int (length ?r1) = int (length rw) + shift dW trim"
    by (rule length_adjustFront [OF vW])
  have vE: "trim \<and> dE \<le> 0 \<longrightarrow> nat (- dE) \<le> length ?r1"
    using validE len1 len by linarith
  have "trim \<and> dE \<le> 0 \<longrightarrow>
          (\<forall>k. length ?r1 - nat (- dE) \<le> k \<and> k < length ?r1 \<longrightarrow> \<not> ?r1 ! k)"
  proof (intro impI allI)
    fix k assume t: "trim \<and> dE \<le> 0" and k: "length ?r1 - nat (- dE) \<le> k \<and> k < length ?r1"
    show "\<not> ?r1 ! k"
    proof
      assume "?r1 ! k"
      with k front [of "int k"] have "liveIn (int k - shift dW trim) rw" by simp
      with deadE t have "int k - shift dW trim < int n + dE" by blast
      moreover have "int (length ?r1) - int (nat (- dE)) \<le> int k" using k by linarith
      ultimately show False using len1 len t by simp
    qed
  qed
  from adjustBack_nth [where P = "\<lambda>b. b" and blank = False, OF vE _ this]
  have "(0 \<le> j \<and> j < int (length (adjustBack dE trim False ?r1)) \<and>
           adjustBack dE trim False ?r1 ! nat j) \<longleftrightarrow>
        (0 \<le> j \<and> j < int (length ?r1) \<and> ?r1 ! nat j)"
    by simp
  with front [of j] show ?thesis by (simp add: liveIn_def)
qed

lemma cols_adjusted_alive:
  assumes rect: "\<forall>rw \<in> set (rows g). length rw = n"
    and validW: "trim \<and> dW \<le> 0 \<longrightarrow> nat (- dW) \<le> n"
    and validE: "trim \<and> dE \<le> 0 \<longrightarrow> int (nat (- dE)) \<le> int n + shift dW trim"
    and deadW: "trim \<and> dW \<le> 0 \<longrightarrow> (\<forall>i j. alive g i j \<longrightarrow> - dW \<le> j)"
    and deadE: "trim \<and> dE \<le> 0 \<longrightarrow> (\<forall>i j. alive g i j \<longrightarrow> j < int n + dE)"
    and rs: "rows g' = map (\<lambda>rw. adjustBack dE trim False (adjustFront dW trim False rw)) (rows g)"
  shows "alive g' i j \<longleftrightarrow> alive g i (j - shift dW trim)"
proof (cases "0 \<le> i \<and> i < int (length (rows g))")
  case False
  then show ?thesis by (auto simp: alive_liveIn rs)
next
  case True
  then have i: "nat i < length (rows g)" by (simp add: nat_less_iff)
  let ?rw = "rows g ! nat i"
  have len: "length ?rw = n" using rect i by simp
  have dW: "trim \<and> dW \<le> 0 \<longrightarrow> (\<forall>j. liveIn j ?rw \<longrightarrow> - dW \<le> j)"
    using deadW True by (auto simp: alive_liveIn)
  have dE: "trim \<and> dE \<le> 0 \<longrightarrow> (\<forall>j. liveIn j ?rw \<longrightarrow> j < int n + dE)"
    using deadE True by (auto simp: alive_liveIn)
  from row_adjusted_liveIn [OF len validW validE dW dE, of j]
  show ?thesis using True i by (simp add: alive_liveIn rs)
qed


lemma set_adjustFront: "set (adjustFront d trim blank xs) \<subseteq> insert blank (set xs)"
  by (auto simp: adjustFront_def dest: in_set_dropD)

lemma set_adjustBack: "set (adjustBack d trim blank xs) \<subseteq> insert blank (set xs)"
  by (auto simp: adjustBack_def dest: in_set_takeD)

lemma py_set_0: "length xs = 2 \<Longrightarrow> py_set xs 0 v = Inr [v, xs ! 1]"
  by (cases xs; cases "tl xs") (auto simp: py_set_def py_index_def)

lemma py_set_1: "length xs = 2 \<Longrightarrow> py_set xs 1 v = Inr [xs ! 0, v]"
  by (cases xs; cases "tl xs") (auto simp: py_set_def py_index_def)

text \<open>The run of \<^verbatim>\<open>_maintainMargin\<close> on a well-formed grid, once the deficits are known
  and no loop removes more than there is.\<close>

lemma maintainMargin_rows:
  assumes wf: "wf_grid g"
    and cd: "computeDeficits g = Inr (dN, dE, dS, dW)"
    and vN: "trim \<and> dN \<le> 0 \<longrightarrow> nat (- dN) \<le> length (rows g)"
    and vS: "trim \<and> dS \<le> 0 \<longrightarrow> int (nat (- dS)) \<le> int (length (rows g)) + shift dN trim"
    and vW: "trim \<and> dW \<le> 0 \<longrightarrow> int (nat (- dW)) \<le> colCount g"
    and vE: "trim \<and> dE \<le> 0 \<longrightarrow> int (nat (- dE)) \<le> colCount g + shift dW trim"
    and ne: "0 < int (length (rows g)) + shift dN trim + shift dS trim"
  shows "maintainMargin g trim = Inr (resize g trim dN dE dS dW) \<and>
         wf_grid (resize g trim dN dE dS dW)"
proof -
  let ?C = "colCount g"
  let ?dr = "replicate (nat ?C) False"
  let ?r1 = "adjustFront dN trim ?dr (rows g)"
  let ?r2 = "adjustBack dS trim ?dr ?r1"
  let ?r3 = "map (adjustFront dW trim False) ?r2"
  let ?r4 = "map (adjustBack dE trim False) ?r3"
  have ext: "extent g = [rowCount g, ?C]"
    using wf by (cases "extent g"; cases "tl (extent g)")
      (auto simp: wf_grid_def rowCount_def colCount_def)
  have C0: "0 \<le> ?C" using wf_gridD(8) [OF wf] .
  have len1: "int (length ?r1) = int (length (rows g)) + shift dN trim"
    by (rule length_adjustFront [OF vN])
  have vS': "trim \<and> dS \<le> 0 \<longrightarrow> nat (- dS) \<le> length ?r1"
    using vS len1 by linarith
  have len2: "int (length ?r2) = int (length ?r1) + shift dS trim"
    by (rule length_adjustBack [OF vS'])
  have ne2: "?r2 \<noteq> []" using ne len1 len2 by auto
  have rect2: "\<forall>rw \<in> set ?r2. length rw = nat ?C"
  proof
    fix rw assume "rw \<in> set ?r2"
    then have "rw = ?dr \<or> rw \<in> set (rows g)"
      using set_adjustBack [of dS trim ?dr ?r1] set_adjustFront [of dN trim ?dr "rows g"]
      by blast
    moreover have "rw \<in> set (rows g) \<Longrightarrow> int (length rw) = ?C"
      using wf by (simp add: wf_grid_def list_all_iff)
    ultimately show "length rw = nat ?C" by auto
  qed
  have vW': "trim \<and> dW \<le> 0 \<longrightarrow> (\<forall>rw \<in> set ?r2. nat (- dW) \<le> length rw)"
    using vW rect2 by auto
  have lenW: "int (length (adjustFront dW trim False rw)) = ?C + shift dW trim"
    if "rw \<in> set ?r2" for rw
  proof -
    have l: "length rw = nat ?C" using rect2 that by simp
    then have "trim \<and> dW \<le> 0 \<longrightarrow> nat (- dW) \<le> length rw" using vW by auto
    from length_adjustFront [OF this] l C0 show ?thesis by simp
  qed
  have rect3: "\<forall>rw \<in> set ?r3. length rw = nat (?C + shift dW trim)"
  proof
    fix rw assume "rw \<in> set ?r3"
    then obtain rw' where "rw' \<in> set ?r2" "rw = adjustFront dW trim False rw'" by auto
    with lenW [of rw'] have "int (length rw) = ?C + shift dW trim" by simp
    then show "length rw = nat (?C + shift dW trim)" by linarith
  qed
  have W0: "0 \<le> ?C + shift dW trim"
  proof -
    from ne2 obtain rw where "rw \<in> set ?r2" by (cases ?r2) auto
    from lenW [OF this] show ?thesis by linarith
  qed
  have vE': "trim \<and> dE \<le> 0 \<longrightarrow> nat (- dE) \<le> nat (?C + shift dW trim)"
    using vE W0 by auto
  have lenE: "int (length (adjustBack dE trim False rw)) = ?C + shift dW trim + shift dE trim"
    if "rw \<in> set ?r3" for rw
  proof -
    have l: "length rw = nat (?C + shift dW trim)" using rect3 that by blast
    then have "trim \<and> dE \<le> 0 \<longrightarrow> nat (- dE) \<le> length rw" using vE' by auto
    from length_adjustBack [OF this] l W0 show ?thesis by simp
  qed
  have ne3: "?r3 \<noteq> []" and ne4: "?r4 \<noteq> []" using ne2 by simp_all
  have first3: "int (length (?r3 ! 0)) = ?C + shift dW trim"
    using rect3 ne3 W0 by (simp add: nth_mem)
  have first4: "int (length (?r4 ! 0)) = ?C + shift dW trim + shift dE trim"
  proof -
    have "?r4 ! 0 = adjustBack dE trim False (?r3 ! 0)" using ne3 by (simp add: nth_map)
    moreover have "?r3 ! 0 \<in> set ?r3" using ne3 by (simp add: nth_mem)
    ultimately show ?thesis using lenE by simp
  qed
  let ?g1 = "g\<lparr>rows := ?r1\<rparr>"
  let ?g1' = "?g1\<lparr>extent := [int (length ?r1), ?C]\<rparr>"
  let ?g2 = "?g1'\<lparr>rows := ?r2\<rparr>"
  let ?g2' = "?g2\<lparr>extent := [int (length ?r2), ?C]\<rparr>"
  let ?g3 = "?g2'\<lparr>rows := ?r3\<rparr>"
  let ?g3' = "?g3\<lparr>extent := [int (length ?r2), ?C + shift dW trim]\<rparr>"
  let ?g4 = "?g3'\<lparr>rows := ?r4\<rparr>"
  let ?g4' = "?g4\<lparr>extent := [int (length ?r2), ?C + shift dW trim + shift dE trim]\<rparr>"
  have sN: "forEach (py_range \<bar>dN\<bar>)
              (\<lambda>i g. if dN > 0 then addARow 0 g else if trim then trimARow 0 g else Inr g) g
            = Inr ?g1"
    by (rule north_stage [OF _ vN]) (simp add: ext)
  have u1: "updateRowCount ?g1 = Inr ?g1'"
    by (simp add: updateRowCount_def ext py_set_0)
  have sS: "forEach (py_range \<bar>dS\<bar>)
              (\<lambda>i g. if dS > 0 then addARow (int (length (rows g))) g
                      else if trim then trimARow (int (length (rows g)) - 1) g
                      else Inr g) ?g1'
            = Inr ?g2"
    using south_stage [of ?g1' ?C trim dS] vS' by simp
  have u2: "updateRowCount ?g2 = Inr ?g2'"
    by (simp add: updateRowCount_def py_set_0)
  have sW: "forEach (py_range \<bar>dW\<bar>)
              (\<lambda>i g. if dW > 0 then addAColumn 0 g else if trim then trimAColumn 0 g else Inr g) ?g2'
            = Inr ?g3"
    using west_stage [of ?g2' trim dW] vW' by simp
  have u3: "updateColCount ?g3 = Inr ?g3'"
    using ne3 first3 by (simp add: updateColCount_def py_set_1)
  have sE: "forEach (py_range \<bar>dE\<bar>)
              (\<lambda>i g. if dE > 0 then
                        bindE (py_get (rows g) 0) (\<lambda>rw. addAColumn (int (length rw)) g)
                      else if trim then
                        bindE (py_get (rows g) 0) (\<lambda>rw. trimAColumn (int (length rw) - 1) g)
                      else Inr g) ?g3'
            = Inr ?g4"
    using east_stage [of ?g3' "nat (?C + shift dW trim)" trim dE] ne3 rect3 vE' by simp
  have u4: "updateColCount ?g4 = Inr ?g4'"
    using ne4 first4 by (simp add: updateColCount_def py_set_1)
  have "maintainMargin g trim = Inr ?g4'"
    unfolding maintainMargin_def
    by (simp only: cd sN u1 sS u2 sW u3 sE u4 bindE_Inr prod.case)
  moreover have eq: "?g4' = resize g trim dN dE dS dW"
    using len1 len2 wf_gridD(7) [OF wf] by (simp add: resize_def comp_def)
  moreover have "wf_grid ?g4'"
  proof -
    have "\<forall>rw \<in> set ?r4. int (length rw) = ?C + shift dW trim + shift dE trim"
      using lenE by auto
    moreover have "0 \<le> ?C + shift dW trim + shift dE trim"
      using first4 by linarith
    ultimately show ?thesis
      using wf by (simp add: wf_grid_def rowCount_def colCount_def list_all_iff)
  qed
  ultimately show ?thesis by simp
qed


lemma shift_ge: "d \<le> shift d trim"
  and shift_eq: "trim \<or> 0 < d \<Longrightarrow> shift d trim = d"
  and shift_keep: "\<not> trim \<Longrightarrow> d \<le> 0 \<Longrightarrow> shift d trim = 0"
  and shift_nonneg: "\<not> trim \<Longrightarrow> 0 \<le> shift d trim"
  by (auto simp: shift_def)

text \<open>What \<^verbatim>\<open>_maintainMargin\<close> does to a well-formed grid: it never raises, the result is
  well-formed, and the live cells are the old ones, moved by the change at the north
  and west ends. \<open>t\<close>, \<open>b\<close>, \<open>l\<close>, \<open>r\<close> are the bounds found by the scans.\<close>

lemma maintainMargin_wf:
  assumes wf: "wf_grid g"
  obtains t b l r g' where
    "0 \<le> t" "t \<le> b + 1" "b < rowCount g" "0 \<le> l" "l \<le> r + 1" "r < colCount g"
    "\<forall>i j. alive g i j \<longrightarrow> t \<le> i \<and> i \<le> b \<and> l \<le> j \<and> j \<le> r"
    "(\<exists>i j. alive g i j) \<longrightarrow>
       (\<exists>j. alive g t j) \<and> (\<exists>j. alive g b j) \<and> (\<exists>i. alive g i l) \<and> (\<exists>i. alive g i r)"
    "(\<forall>i j. \<not> alive g i j) \<longrightarrow>
       t = rowCount g \<and> b = rowCount g - 1 \<and> l = colCount g \<and> r = colCount g - 1"
    "g' = resize g trim (north g - t) (east g - (colCount g - r - 1))
            (south g - (rowCount g - b - 1)) (west g - l)"
    "maintainMargin g trim = Inr g'"
    "wf_grid g'"
    "\<forall>i j. alive g' i j \<longleftrightarrow>
       alive g (i - shift (north g - t) trim) (j - shift (west g - l) trim)"
proof -
  from computeDeficits_wf [OF wf] obtain t b l r where
    cd: "computeDeficits g =
           Inr (north g - t, east g - (colCount g - r - 1),
                south g - (rowCount g - b - 1), west g - l)"
    and bnd: "0 \<le> t" "t \<le> b + 1" "b < rowCount g" "0 \<le> l" "l \<le> r + 1" "r < colCount g"
    and live: "\<forall>i j. alive g i j \<longrightarrow> t \<le> i \<and> i \<le> b \<and> l \<le> j \<and> j \<le> r"
    and some: "(\<exists>i j. alive g i j) \<longrightarrow>
       (\<exists>j. alive g t j) \<and> (\<exists>j. alive g b j) \<and> (\<exists>i. alive g i l) \<and> (\<exists>i. alive g i r)"
    and none: "(\<forall>i j. \<not> alive g i j) \<longrightarrow>
       t = rowCount g \<and> b = rowCount g - 1 \<and> l = colCount g \<and> r = colCount g - 1"
    by blast
  let ?dN = "north g - t" and ?dE = "east g - (colCount g - r - 1)"
  let ?dS = "south g - (rowCount g - b - 1)" and ?dW = "west g - l"
  let ?C = "colCount g"
  let ?g' = "resize g trim ?dN ?dE ?dS ?dW"
  note m = wf_gridD(10-13) [OF wf]
  have R: "rowCount g = int (length (rows g))" using wf_gridD(7) [OF wf] .
  have sN: "north g \<le> t + shift ?dN trim" using shift_ge [of ?dN trim] by linarith
  have sS: "b + 1 + south g \<le> rowCount g + shift ?dS trim"
    using shift_ge [of ?dS trim] by linarith
  have sW: "west g \<le> l + shift ?dW trim" using shift_ge [of ?dW trim] by linarith
  have vN: "trim \<and> ?dN \<le> 0 \<longrightarrow> nat (- ?dN) \<le> length (rows g)"
    using bnd m R by linarith
  have vS: "trim \<and> ?dS \<le> 0 \<longrightarrow>
      int (nat (- ?dS)) \<le> int (length (rows g)) + shift ?dN trim"
    using bnd m R sN by linarith
  have vW: "trim \<and> ?dW \<le> 0 \<longrightarrow> int (nat (- ?dW)) \<le> ?C"
    using bnd m by linarith
  have vE: "trim \<and> ?dE \<le> 0 \<longrightarrow> int (nat (- ?dE)) \<le> ?C + shift ?dW trim"
    using bnd m sW by linarith
  have ne: "0 < int (length (rows g)) + shift ?dN trim + shift ?dS trim"
    using bnd m R sN sS by linarith
  from maintainMargin_rows [OF wf cd vN vS vW vE ne]
  have run: "maintainMargin g trim = Inr ?g'" and wf': "wf_grid ?g'" by simp_all
  let ?g2 = "g\<lparr>rows := adjustBack ?dS trim (replicate (nat ?C) False)
                (adjustFront ?dN trim (replicate (nat ?C) False) (rows g))\<rparr>"
  have deadN: "trim \<and> ?dN \<le> 0 \<longrightarrow> (\<forall>i j. alive g i j \<longrightarrow> - ?dN \<le> i)"
  proof (intro impI allI)
    fix i j assume "alive g i j"
    with live have "t \<le> i" by blast
    with m show "- ?dN \<le> i" by linarith
  qed
  have deadS: "trim \<and> ?dS \<le> 0 \<longrightarrow>
      (\<forall>i j. alive g i j \<longrightarrow> i < int (length (rows g)) + ?dS)"
  proof (intro impI allI)
    fix i j assume "alive g i j"
    with live have "i \<le> b" by blast
    with m R show "i < int (length (rows g)) + ?dS" by linarith
  qed
  have a2: "alive ?g2 i j \<longleftrightarrow> alive g (i - shift ?dN trim) j" for i j
    by (rule rows_adjusted_alive [OF vN vS deadN deadS]) simp
  have rect2: "\<forall>rw \<in> set (rows ?g2). length rw = nat ?C"
  proof
    fix rw assume "rw \<in> set (rows ?g2)"
    then have "rw = replicate (nat ?C) False \<or> rw \<in> set (rows g)"
      using set_adjustBack [of ?dS trim "replicate (nat ?C) False"
              "adjustFront ?dN trim (replicate (nat ?C) False) (rows g)"]
            set_adjustFront [of ?dN trim "replicate (nat ?C) False" "rows g"]
      by auto
    moreover have "rw \<in> set (rows g) \<Longrightarrow> int (length rw) = ?C"
      using wf by (simp add: wf_grid_def list_all_iff)
    ultimately show "length rw = nat ?C" by auto
  qed
  have C0: "0 \<le> ?C" using wf_gridD(8) [OF wf] .
  have vW': "trim \<and> ?dW \<le> 0 \<longrightarrow> nat (- ?dW) \<le> nat ?C"
    using vW C0 by linarith
  have vE': "trim \<and> ?dE \<le> 0 \<longrightarrow> int (nat (- ?dE)) \<le> int (nat ?C) + shift ?dW trim"
    using vE C0 by simp
  have deadW: "trim \<and> ?dW \<le> 0 \<longrightarrow> (\<forall>i j. alive ?g2 i j \<longrightarrow> - ?dW \<le> j)"
  proof (intro impI allI)
    fix i j assume "alive ?g2 i j"
    with a2 live have "l \<le> j" by blast
    with m show "- ?dW \<le> j" by linarith
  qed
  have deadE: "trim \<and> ?dE \<le> 0 \<longrightarrow> (\<forall>i j. alive ?g2 i j \<longrightarrow> j < int (nat ?C) + ?dE)"
  proof (intro impI allI)
    fix i j assume "alive ?g2 i j"
    with a2 live have "j \<le> r" by blast
    with m C0 show "j < int (nat ?C) + ?dE" by simp
  qed
  have a4: "alive ?g' i j \<longleftrightarrow> alive ?g2 i (j - shift ?dW trim)" for i j
    by (rule cols_adjusted_alive [OF rect2 vW' vE' deadW deadE]) (simp add: resize_def)
  have moved: "\<forall>i j. alive ?g' i j \<longleftrightarrow>
      alive g (i - shift ?dN trim) (j - shift ?dW trim)"
    using a4 a2 by simp
  show ?thesis
    by (rule that [of t b l r ?g']; (fact bnd live some none run wf' moved | rule refl))
qed


lemma resize_fields:
  "margins (resize g trim dN dE dS dW) = margins g"
  "rowCount (resize g trim dN dE dS dW) = rowCount g + shift dN trim + shift dS trim"
  "colCount (resize g trim dN dE dS dW) = colCount g + shift dW trim + shift dE trim"
  "north (resize g trim dN dE dS dW) = north g"
  "east (resize g trim dN dE dS dW) = east g"
  "south (resize g trim dN dE dS dW) = south g"
  "west (resize g trim dN dE dS dW) = west g"
  by (simp_all add: resize_def rowCount_def colCount_def north_def east_def south_def west_def)

lemma maintainMargin_margin_ok:
  assumes wf: "wf_grid g"
  shows "\<exists>g'. maintainMargin g trim = Inr g' \<and> wf_grid g' \<and> margins g' = margins g \<and>
              margin_ok g'"
proof (rule maintainMargin_wf [OF wf, of trim])
  fix t b l r g'
  let ?dN = "north g - t" and ?dE = "east g - (colCount g - r - 1)"
  let ?dS = "south g - (rowCount g - b - 1)" and ?dW = "west g - l"
  assume live: "\<forall>i j. alive g i j \<longrightarrow> t \<le> i \<and> i \<le> b \<and> l \<le> j \<and> j \<le> r"
    and g': "g' = resize g trim ?dN ?dE ?dS ?dW"
    and run: "maintainMargin g trim = Inr g'"
    and wf': "wf_grid g'"
    and moved: "\<forall>i j. alive g' i j \<longleftrightarrow> alive g (i - shift ?dN trim) (j - shift ?dW trim)"
  have R': "rowCount g' = rowCount g + shift ?dN trim + shift ?dS trim"
    and C': "colCount g' = colCount g + shift ?dW trim + shift ?dE trim"
    and mg: "north g' = north g" "east g' = east g" "south g' = south g" "west g' = west g"
    and ms: "margins g' = margins g"
    by (simp_all add: g' resize_fields)
  have "margin_ok g'"
    unfolding margin_ok_def
  proof (intro allI impI)
    fix i j assume "alive g' i j"
    with moved have "alive g (i - shift ?dN trim) (j - shift ?dW trim)" by simp
    with live have b: "t \<le> i - shift ?dN trim" "i - shift ?dN trim \<le> b"
      "l \<le> j - shift ?dW trim" "j - shift ?dW trim \<le> r" by blast+
    have n: "north g' \<le> i" using b(1) shift_ge [of ?dN trim] mg by linarith
    have s: "i + south g' < rowCount g'"
      using b(2) shift_ge [of ?dS trim] mg R' by linarith
    have w: "west g' \<le> j" using b(3) shift_ge [of ?dW trim] mg by linarith
    have e: "j + east g' < colCount g'"
      using b(4) shift_ge [of ?dE trim] mg C' by linarith
    from n s w e
    show "north g' \<le> i \<and> i + south g' < rowCount g' \<and> west g' \<le> j \<and> j + east g' < colCount g'"
      by blast
  qed
  with run wf' ms show ?thesis by blast
qed

lemma maintainMargin_trimmed_tight:
  assumes wf: "wf_grid g" and run: "maintainMargin g True = Inr g'"
    and some: "alive g' i0 j0"
  shows "tight g'"
proof (rule maintainMargin_wf [OF wf, of True])
  fix t b l r h
  let ?dN = "north g - t" and ?dE = "east g - (colCount g - r - 1)"
  let ?dS = "south g - (rowCount g - b - 1)" and ?dW = "west g - l"
  assume any: "(\<exists>i j. alive g i j) \<longrightarrow>
       (\<exists>j. alive g t j) \<and> (\<exists>j. alive g b j) \<and> (\<exists>i. alive g i l) \<and> (\<exists>i. alive g i r)"
    and h: "h = resize g True ?dN ?dE ?dS ?dW"
    and run2: "maintainMargin g True = Inr h"
    and moved: "\<forall>i j. alive h i j \<longleftrightarrow> alive g (i - shift ?dN True) (j - shift ?dW True)"
  have eq: "h = g'" using run run2 by simp
  have sh: "shift ?dN True = ?dN" "shift ?dE True = ?dE" "shift ?dS True = ?dS"
    "shift ?dW True = ?dW"
    by (simp_all add: shift_def)
  have fwd: "alive g i j \<Longrightarrow> alive g' (i + ?dN) (j + ?dW)" for i j
    using moved eq sh by simp
  have R': "rowCount g' = rowCount g + ?dN + ?dS"
    and C': "colCount g' = colCount g + ?dW + ?dE"
    and mg: "north g' = north g" "east g' = east g" "south g' = south g" "west g' = west g"
    using sh by (simp_all add: eq [symmetric] h resize_fields)
  from some moved eq have "\<exists>i j. alive g i j" by blast
  with any obtain jt jb il ir where
    lv: "alive g t jt" "alive g b jb" "alive g il l" "alive g ir r" by blast
  have "alive g' (north g') (jt + ?dW)"
    using fwd [OF lv(1)] mg by simp
  moreover have "alive g' (rowCount g' - 1 - south g') (jb + ?dW)"
  proof -
    have "rowCount g' - 1 - south g' = b + ?dN" using R' mg by linarith
    with fwd [OF lv(2)] show ?thesis by simp
  qed
  moreover have "alive g' (il + ?dN) (west g')"
    using fwd [OF lv(3)] mg by simp
  moreover have "alive g' (ir + ?dN) (colCount g' - 1 - east g')"
  proof -
    have "colCount g' - 1 - east g' = r + ?dW" using C' mg by linarith
    with fwd [OF lv(4)] show ?thesis by simp
  qed
  ultimately show ?thesis unfolding tight_def by blast
qed

lemma maintainMargin_deferred_grows:
  assumes wf: "wf_grid g" and run: "maintainMargin g False = Inr g'"
  shows "rowCount g \<le> rowCount g' \<and> colCount g \<le> colCount g'"
proof (rule maintainMargin_wf [OF wf, of False])
  fix t b l r h
  let ?dN = "north g - t" and ?dE = "east g - (colCount g - r - 1)"
  let ?dS = "south g - (rowCount g - b - 1)" and ?dW = "west g - l"
  assume h: "h = resize g False ?dN ?dE ?dS ?dW"
    and run2: "maintainMargin g False = Inr h"
  have eq: "g' = h" using run run2 by simp
  have "0 \<le> shift ?dN False" "0 \<le> shift ?dS False" "0 \<le> shift ?dW False"
    "0 \<le> shift ?dE False"
    by (simp_all add: shift_nonneg)
  then show ?thesis
    by (simp add: eq h resize_fields)
qed

lemma maintainMargin_no_resize:
  assumes wf: "wf_grid g" and run: "maintainMargin g False = Inr g'"
    and same: "extent g' = extent g"
  shows "g' = g"
proof (rule maintainMargin_wf [OF wf, of False])
  fix t b l r h
  let ?dN = "north g - t" and ?dE = "east g - (colCount g - r - 1)"
  let ?dS = "south g - (rowCount g - b - 1)" and ?dW = "west g - l"
  assume h: "h = resize g False ?dN ?dE ?dS ?dW"
    and run2: "maintainMargin g False = Inr h"
  have eq: "h = g'" using run run2 by simp
  have "rowCount g' = rowCount g" "colCount g' = colCount g"
    using same by (simp_all add: rowCount_def colCount_def)
  moreover have "rowCount h = rowCount g + shift ?dN False + shift ?dS False"
    "colCount h = colCount g + shift ?dW False + shift ?dE False"
    by (simp_all add: h resize_fields)
  ultimately have sums: "shift ?dN False + shift ?dS False = 0"
    "shift ?dW False + shift ?dE False = 0"
    using eq by simp_all
  have z: "shift ?dN False = 0" "shift ?dS False = 0" "shift ?dW False = 0"
    "shift ?dE False = 0"
  proof -
    have "0 \<le> shift ?dN False" "0 \<le> shift ?dS False" "0 \<le> shift ?dW False"
      "0 \<le> shift ?dE False"
      by (simp_all add: shift_nonneg)
    with sums show "shift ?dN False = 0" "shift ?dS False = 0" "shift ?dW False = 0"
      "shift ?dE False = 0"
      by linarith+
  qed
  have d: "\<not> 0 < ?dN" "\<not> 0 < ?dS" "\<not> 0 < ?dW" "\<not> 0 < ?dE"
    using z by (simp_all add: shift_def split: if_splits)
  have ext: "extent g = [rowCount g, colCount g]"
    using wf by (cases "extent g"; cases "tl (extent g)")
      (auto simp: wf_grid_def rowCount_def colCount_def)
  have "h = \<lparr>rows = rows g, extent = extent g, margins = margins g\<rparr>"
    unfolding h resize_def using z ext by (simp add: adjust_keep [OF d(1)] adjust_keep [OF d(2)]
      adjust_keep [OF d(3)] adjust_keep [OF d(4)])
  then show ?thesis using eq by simp
qed

section \<open>Applying points\<close>

lemma py_get_Inr:
  "py_get xs i = Inr y \<Longrightarrow> \<exists>k < length xs. py_index (length xs) i = Some k \<and> y = xs ! k"
  by (auto simp: py_get_def py_index_def split: if_splits)

lemma py_set_Inr:
  "py_set xs i v = Inr ys \<Longrightarrow> \<exists>k < length xs. py_index (length xs) i = Some k \<and> ys = xs[k := v]"
  by (auto simp: py_set_def py_index_def split: if_splits)

lemma forEach_invariant:
  assumes "I s" and "forEach xs body s = Inr s'"
    and "\<And>x s s'. x \<in> set xs \<Longrightarrow> I s \<Longrightarrow> body x s = Inr s' \<Longrightarrow> I s'"
  shows "I s'"
  using assms
proof (induction xs arbitrary: s)
  case Nil
  then show ?case by simp
next
  case (Cons x xs)
  from Cons.prems(2) obtain s1 where s1: "body x s = Inr s1" "forEach xs body s1 = Inr s'"
    by (cases "body x s") auto
  have i1: "I s1" using Cons.prems(3) [of x s s1] Cons.prems(1) s1(1) by simp
  have step: "\<And>y t t'. y \<in> set xs \<Longrightarrow> I t \<Longrightarrow> body y t = Inr t' \<Longrightarrow> I t'"
    using Cons.prems(3) by (meson list.set_intros(2))
  show ?case by (rule Cons.IH [OF i1 s1(2)]) (rule step)
qed

lemma setPoint_Inr:
  assumes "setPoint x g = Inr g1"
  shows "\<exists>k < length (rows g). \<exists>m < length (rows g ! k).
           py_index (length (rows g)) (row x) = Some k \<and>
           py_index (length (rows g ! k)) (col x) = Some m \<and>
           g1 = g\<lparr>rows := (rows g)[k := (rows g ! k)[m := state x]]\<rparr>"
proof -
  from assms obtain rw rw' rs where
    a: "py_get (rows g) (row x) = Inr rw" "py_set rw (col x) (state x) = Inr rw'"
       "py_set (rows g) (row x) rw' = Inr rs" "g1 = g\<lparr>rows := rs\<rparr>"
    by (auto simp: setPoint_def bindE_eq_Inr)
  from py_get_Inr [OF a(1)] obtain k where
    k: "k < length (rows g)" "py_index (length (rows g)) (row x) = Some k" "rw = rows g ! k"
    by blast
  from py_set_Inr [OF a(2)] obtain m where
    m: "m < length rw" "py_index (length rw) (col x) = Some m" "rw' = rw[m := state x]"
    by blast
  from py_set_Inr [OF a(3)] k(2) have "rs = (rows g)[k := rw']" by auto
  with k m a(4) show ?thesis by auto
qed

lemma setPoint_wf:
  assumes "wf_grid g" "setPoint x g = Inr g1"
  shows "wf_grid g1 \<and> extent g1 = extent g \<and> margins g1 = margins g"
proof -
  from setPoint_Inr [OF assms(2)] obtain k m where
    g1: "g1 = g\<lparr>rows := (rows g)[k := (rows g ! k)[m := state x]]\<rparr>"
    and k: "k < length (rows g)"
    by blast
  have "list_all (\<lambda>rw. int (length rw) = colCount g)
          ((rows g)[k := (rows g ! k)[m := state x]])"
    using assms(1) k
    by (auto simp: wf_grid_def list_all_length nth_list_update)
  then show ?thesis
    using assms(1) by (simp add: g1 wf_grid_def rowCount_def colCount_def)
qed

lemma setPoints_wf:
  assumes "wf_grid g" "forEach pts setPoint g = Inr g1"
  shows "wf_grid g1 \<and> extent g1 = extent g \<and> margins g1 = margins g"
proof (rule forEach_invariant
        [where I = "\<lambda>s. wf_grid s \<and> extent s = extent g \<and> margins s = margins g"
           and body = setPoint and xs = pts and s = g])
  show "wf_grid g \<and> extent g = extent g \<and> margins g = margins g" using assms(1) by simp
  show "forEach pts setPoint g = Inr g1" by (rule assms(2))
next
  fix x s s'
  assume "wf_grid s \<and> extent s = extent g \<and> margins s = margins g" "setPoint x s = Inr s'"
  then show "wf_grid s' \<and> extent s' = extent g \<and> margins s' = margins g"
    using setPoint_wf [of s x s'] by simp
qed

text \<open>
  C3. After every \<^verbatim>\<open>applyPoints\<close> call that returns, on a well-formed grid: the grid is
  well-formed again with the same margins, every live cell is at least \<open>margin[side]\<close>
  rows or columns away from each of the four edges, so no live cell is in the first or
  last row or column; and when the trim was due (\<open>trim_now\<close>) and a live cell exists, the
  live region touches the margin on all four sides, so a separation larger than the
  margin only occurs when the shrink was deferred. \<^verbatim>\<open>seedPattern\<close> and \<^verbatim>\<open>tick\<close> change the
  grid through \<^verbatim>\<open>applyPoints\<close> only.
\<close>

theorem applyPoints_keeps_margins:
  assumes wf: "wf_grid g" and run: "applyPoints g pts trim_now = Inr g'"
  shows "wf_grid g' \<and> margins g' = margins g \<and> margin_ok g' \<and>
         (\<forall>i j. alive g' i j \<longrightarrow> 0 < i \<and> i < rowCount g' - 1 \<and> 0 < j \<and> j < colCount g' - 1) \<and>
         (trim_now \<and> (\<exists>i j. alive g' i j) \<longrightarrow> tight g')"
proof -
  from run obtain g1 where
    g1: "forEach pts setPoint g = Inr g1" and mm: "maintainMargin g1 trim_now = Inr g'"
    by (auto simp: applyPoints_def bindE_eq_Inr)
  from setPoints_wf [OF wf g1] have wf1: "wf_grid g1" and m1: "margins g1 = margins g"
    by simp_all
  from maintainMargin_margin_ok [OF wf1, of trim_now] mm
  have wf': "wf_grid g'" and m': "margins g' = margins g1" and ok: "margin_ok g'"
    by auto
  have border: "\<forall>i j. alive g' i j \<longrightarrow>
      0 < i \<and> i < rowCount g' - 1 \<and> 0 < j \<and> j < colCount g' - 1"
  proof (intro allI impI)
    fix i j assume "alive g' i j"
    with ok have "north g' \<le> i" "i + south g' < rowCount g'" "west g' \<le> j"
      "j + east g' < colCount g'"
      unfolding margin_ok_def by blast+
    with wf_gridD(10-13) [OF wf']
    show "0 < i \<and> i < rowCount g' - 1 \<and> 0 < j \<and> j < colCount g' - 1" by linarith
  qed
  have tightness: "trim_now \<and> (\<exists>i j. alive g' i j) \<longrightarrow> tight g'"
  proof (intro impI, elim conjE exE)
    fix i j assume "trim_now" "alive g' i j"
    with mm show "tight g'" using maintainMargin_trimmed_tight [OF wf1, of g' i j] by simp
  qed
  from wf' m' m1 ok border tightness show ?thesis by simp
qed

theorem applyPoints_keeps_margins_witness:
  "wf_grid \<lparr>rows = replicate 4 (replicate 5 False), extent = [4, 5], margins = [1, 1, 1, 1]\<rparr> \<and>
   applyPoints \<lparr>rows = replicate 4 (replicate 5 False), extent = [4, 5], margins = [1, 1, 1, 1]\<rparr>
     [\<lparr>row = 1, col = 1, state = True\<rparr>] True =
     Inr \<lparr>rows = [[False, False, False], [False, True, False], [False, False, False]],
          extent = [3, 3], margins = [1, 1, 1, 1]\<rparr> \<and>
   margin_ok \<lparr>rows = [[False, False, False], [False, True, False], [False, False, False]],
          extent = [3, 3], margins = [1, 1, 1, 1]\<rparr> \<and>
   tight \<lparr>rows = [[False, False, False], [False, True, False], [False, False, False]],
          extent = [3, 3], margins = [1, 1, 1, 1]\<rparr>"
proof -
  let ?g = "\<lparr>rows = replicate 4 (replicate 5 False), extent = [4, 5], margins = [1, 1, 1, 1]\<rparr>"
  let ?g' = "\<lparr>rows = [[False, False, False], [False, True, False], [False, False, False]],
          extent = [3, 3], margins = [1, 1, 1, 1]\<rparr>"
  have wf: "wf_grid ?g"
    by code_simp
  have run: "applyPoints ?g [\<lparr>row = 1, col = 1, state = True\<rparr>] True = Inr ?g'"
    by code_simp
  have "alive ?g' 1 1" by (simp add: alive_def)
  then have "\<exists>i j. alive ?g' i j" by blast
  with applyPoints_keeps_margins [OF wf run] wf run show ?thesis by simp
qed

section \<open>The transitions of a tick\<close>

lemma getCell_lookup: "getCell g r c = Inr (lookup g r c)"
  by (auto simp: getCell_def lookup_def py_get_def split: option.splits)

lemma countNeighborsCell_codeCount: "countNeighborsCell g r c = Inr (codeCount g r c)"
proof -
  have "filterE (\<lambda>s. getCell g (fst s + r) (snd s + c)) directions =
          Inr (filter (\<lambda>d. lookup g (fst d + r) (snd d + c)) directions)"
    by (rule filterE_pure) (rule getCell_lookup)
  then show ?thesis by (simp add: countNeighborsCell_def codeCount_def)
qed

lemma countNeighborsForRow_wf:
  assumes "wf_grid g"
  shows "countNeighborsForRow g r = Inr (map (codeCount g r) (py_range (colCount g)))"
proof -
  have "mapE (\<lambda>cl. countNeighborsCell g r cl) (py_range (colCount g)) =
          Inr (map (codeCount g r) (py_range (colCount g)))"
    by (rule mapE_pure) (rule countNeighborsCell_codeCount)
  then show ?thesis
    by (simp add: countNeighborsForRow_def wf_gridD(2) [OF assms])
qed

lemma forEach_collect:
  assumes "\<And>x acc. x \<in> set xs \<Longrightarrow> body x acc = Inr (acc @ f x)"
  shows "forEach xs body acc = Inr (acc @ concat (map f xs))"
  using assms by (induction xs arbitrary: acc) simp_all

lemma determineTransitions_wf:
  assumes wf: "wf_grid g" and r: "0 \<le> r" "r < rowCount g"
    and ns: "neighbors = map n (py_range (colCount g))"
  shows "determineTransitions g r neighbors =
           Inr (concat (map (\<lambda>c. transitionFor (alive g r c) (n c) r c) (py_range (colCount g))))"
proof -
  have len: "int (length neighbors) = colCount g"
    using wf_gridD(8) [OF wf] by (simp add: ns)
  have body: "bindE (py_get neighbors c) (\<lambda>ncount.
          bindE (dieTest g r ncount c) (\<lambda>die.
            if die then Inr (census @ [\<lparr>row = r, col = c, state = False\<rparr>])
            else
              bindE (birthTest g r ncount c) (\<lambda>birth.
                if birth then Inr (census @ [\<lparr>row = r, col = c, state = True\<rparr>])
                else Inr census))) =
        Inr (census @ transitionFor (alive g r c) (n c) r c)"
    if "c \<in> set (py_range (colCount g))" for c census
  proof -
    from that have c: "0 \<le> c" "c < colCount g" by (simp_all add: set_py_range)
    have "nat c < length (py_range (colCount g))" using c by simp
    then have "py_range (colCount g) ! nat c = c"
      using c by (simp add: py_range_def)
    then have get: "py_get neighbors c = Inr (n c)"
      using c len by (simp add: py_get_nth ns)
    have cell: "isCellAlive g r c = Inr (alive g r c)"
      by (rule isCellAlive_wf [OF wf r c])
    show ?thesis
      by (simp add: get dieTest_def birthTest_def cell transitionFor_def)
  qed
  show ?thesis
    unfolding determineTransitions_def len
    using forEach_collect [of "py_range (colCount g)" _ "\<lambda>c. transitionFor (alive g r c) (n c) r c" "[]"]
      body by simp
qed

lemma collectTransitions_wf:
  assumes wf: "wf_grid g"
  shows "collectTransitions g = Inr (transitionsOf g)"
proof -
  have ext: "extent g = [rowCount g, colCount g]"
    using wf by (cases "extent g"; cases "tl (extent g)")
      (auto simp: wf_grid_def rowCount_def colCount_def)
  let ?f = "\<lambda>r. concat (map (\<lambda>c. transitionFor (alive g r c) (codeCount g r c) r c)
                           (py_range (colCount g)))"
  have body: "bindE (countNeighborsForRow g r) (\<lambda>neighbors.
               bindE (determineTransitions g r neighbors) (\<lambda>row_census.
                 if row_census \<noteq> [] then Inr (transitions @ row_census)
                 else Inr transitions)) = Inr (transitions @ ?f r)"
    if "r \<in> set (py_range (rowCount g))" for r transitions
  proof -
    from that have r: "0 \<le> r" "r < rowCount g" by (simp_all add: set_py_range)
    have "determineTransitions g r (map (codeCount g r) (py_range (colCount g))) = Inr (?f r)"
      by (rule determineTransitions_wf [OF wf r refl])
    then show ?thesis
      by (simp add: countNeighborsForRow_wf [OF wf])
  qed
  have "forEach (py_range (rowCount g))
          (\<lambda>rownum transitions.
             bindE (countNeighborsForRow g rownum) (\<lambda>neighbors.
             bindE (determineTransitions g rownum neighbors) (\<lambda>row_census.
               if row_census \<noteq> [] then Inr (transitions @ row_census)
               else Inr transitions))) [] = Inr ([] @ concat (map ?f (py_range (rowCount g))))"
    by (rule forEach_collect) (rule body)
  then show ?thesis
    by (simp add: collectTransitions_def getExtent_def ext transitionsOf_def)
qed

lemma transitionFor_point:
  "p \<in> set (transitionFor a n r c) \<Longrightarrow> row p = r \<and> col p = c"
  by (auto simp: transitionFor_def split: if_splits)

lemma in_concat_map2:
  "p \<in> set (concat (map (\<lambda>x. concat (map (f x) ys)) xs)) \<longleftrightarrow>
     (\<exists>x \<in> set xs. \<exists>y \<in> set ys. p \<in> set (f x y))"
  by auto

lemma in_transitionsOf:
  "p \<in> set (transitionsOf g) \<longleftrightarrow>
     0 \<le> row p \<and> row p < rowCount g \<and> 0 \<le> col p \<and> col p < colCount g \<and>
     p \<in> set (transitionFor (alive g (row p) (col p)) (codeCount g (row p) (col p))
                (row p) (col p))"
  (is "?L \<longleftrightarrow> ?R")
proof -
  have L: "?L \<longleftrightarrow> (\<exists>r \<in> set (py_range (rowCount g)). \<exists>c \<in> set (py_range (colCount g)).
             p \<in> set (transitionFor (alive g r c) (codeCount g r c) r c))"
    unfolding transitionsOf_def by (rule in_concat_map2)
  show ?thesis
  proof
    assume ?L
    with L obtain r c where r: "r \<in> set (py_range (rowCount g))"
      and c: "c \<in> set (py_range (colCount g))"
      and p: "p \<in> set (transitionFor (alive g r c) (codeCount g r c) r c)"
      by blast
    from r c have rc: "0 \<le> r" "r < rowCount g" "0 \<le> c" "c < colCount g"
      by (simp_all add: set_py_range)
    from transitionFor_point [OF p] have "row p = r" "col p = c" by simp_all
    with rc p show ?R by simp
  next
    assume ?R
    then have "row p \<in> set (py_range (rowCount g))" "col p \<in> set (py_range (colCount g))"
      "p \<in> set (transitionFor (alive g (row p) (col p)) (codeCount g (row p) (col p))
                (row p) (col p))"
      by (simp_all add: set_py_range)
    then show ?L unfolding L by blast
  qed
qed

text \<open>On a grid that keeps its margins, the wrap-around of negative indices only ever
  reads the dead last row or column, so the count of the code is the Moore count.\<close>

lemma lookup_alive:
  assumes wf: "wf_grid g" and ok: "margin_ok g"
    and r: "- 1 \<le> r" "r \<le> rowCount g" and c: "- 1 \<le> c" "c \<le> colCount g"
  shows "lookup g r c = alive g r c"
proof -
  note m = wf_gridD(10-13) [OF wf]
  have R: "rowCount g = int (length (rows g))" by (rule wf_gridD(7) [OF wf])
  have lastrow: "\<not> alive g (rowCount g - 1) j" for j
  proof
    assume "alive g (rowCount g - 1) j"
    with ok have "rowCount g - 1 + south g < rowCount g" unfolding margin_ok_def by blast
    with m show False by linarith
  qed
  have lastcol: "\<not> alive g i (colCount g - 1)" for i
  proof
    assume "alive g i (colCount g - 1)"
    with ok have "colCount g - 1 + east g < colCount g" unfolding margin_ok_def by blast
    with m show False by linarith
  qed
  have rowlen: "int (length (rows g ! k)) = colCount g" if "k < length (rows g)" for k
    using wf_gridD(9) [OF wf that] .
  consider (above) "r = - 1" | (below) "r = rowCount g" | (inside) "0 \<le> r" "r < rowCount g"
    using r by linarith
  then show ?thesis
  proof cases
    case below
    then show ?thesis by (simp add: lookup_def py_index_def alive_def R)
  next
    case above
    show ?thesis
    proof (cases "rows g = []")
      case True
      then show ?thesis using above by (simp add: lookup_def py_index_def alive_def)
    next
      case False
      then have pos: "0 < length (rows g)" by simp
      then have k: "py_index (length (rows g)) r = Some (length (rows g) - 1)"
        and kl: "length (rows g) - 1 < length (rows g)"
        using above by (auto simp: py_index_def nat_diff_distrib Suc_leI)
      have cells: "\<not> rows g ! (length (rows g) - 1) ! m"
        if "m < length (rows g ! (length (rows g) - 1))" for m
      proof -
        have "nat (rowCount g - 1) = length (rows g) - 1" using R by simp
        with lastrow [of "int m"] that kl False R show ?thesis
          by (auto simp: alive_def)
      qed
      have "\<not> lookup g r c"
        using k cells
        by (auto simp: lookup_def py_index_def split: option.splits if_splits)
      moreover have "\<not> alive g r c" using above by (simp add: alive_def)
      ultimately show ?thesis by simp
    qed
  next
    case inside
    then have k: "py_index (length (rows g)) r = Some (nat r)" and kl: "nat r < length (rows g)"
      using R by (simp_all add: py_index_def)
    have len: "int (length (rows g ! nat r)) = colCount g" by (rule rowlen [OF kl])
    consider (left) "c = - 1" | (right) "c = colCount g" | (mid) "0 \<le> c" "c < colCount g"
      using c by linarith
    then show ?thesis
    proof cases
      case right
      then have "py_index (length (rows g ! nat r)) c = None"
        using len by (simp add: py_index_def)
      moreover have "\<not> alive g r c" using right len inside by (simp add: alive_def)
      ultimately show ?thesis by (simp add: lookup_def k)
    next
      case mid
      then have "py_index (length (rows g ! nat r)) c = Some (nat c)"
        using len by (simp add: py_index_def)
      moreover have "alive g r c = rows g ! nat r ! nat c"
        using mid inside len R by (simp add: alive_def)
      ultimately show ?thesis by (simp add: lookup_def k)
    next
      case left
      have "\<not> alive g r c" using left by (simp add: alive_def)
      moreover have "\<not> lookup g r c"
      proof (cases "colCount g = 0")
        case True
        then have "py_index (length (rows g ! nat r)) c = None"
          using len left by (simp add: py_index_def)
        then show ?thesis by (simp add: lookup_def k)
      next
        case False
        then have pos: "0 < colCount g" using wf_gridD(8) [OF wf] by simp
        then have m: "py_index (length (rows g ! nat r)) c = Some (nat (colCount g - 1))"
          using left len by (simp add: py_index_def)
        have "\<not> rows g ! nat r ! nat (colCount g - 1)"
          using lastcol [of r] inside kl len pos R by (simp add: alive_def)
        then show ?thesis using k m by (simp add: lookup_def)
      qed
      ultimately show ?thesis by simp
    qed
  qed
qed

lemma codeCount_mooreCount:
  assumes wf: "wf_grid g" and ok: "margin_ok g"
    and r: "0 \<le> r" "r < rowCount g" and c: "0 \<le> c" "c < colCount g"
  shows "codeCount g r c = mooreCount g r c"
proof -
  have "lookup g (fst d + r) (snd d + c) = alive g (r + fst d) (c + snd d)"
    if "d \<in> set directions" for d
  proof -
    from that have "- 1 \<le> fst d \<and> fst d \<le> 1 \<and> - 1 \<le> snd d \<and> snd d \<le> 1"
      by (auto simp: directions_def)
    then have "lookup g (fst d + r) (snd d + c) = alive g (fst d + r) (snd d + c)"
      using r c by (intro lookup_alive [OF wf ok]) linarith+
    then show ?thesis by (simp add: add.commute)
  qed
  then have "filter (\<lambda>d. lookup g (fst d + r) (snd d + c)) directions =
             filter (\<lambda>d. alive g (r + fst d) (c + snd d)) directions"
    by (intro filter_cong) simp_all
  then show ?thesis by (simp add: codeCount_def mooreCount_def)
qed

lemma setPoint_inside:
  assumes wf: "wf_grid g"
    and x: "0 \<le> row x" "row x < rowCount g" "0 \<le> col x" "col x < colCount g"
  shows "\<exists>g1. setPoint x g = Inr g1 \<and> wf_grid g1 \<and> extent g1 = extent g \<and>
           margins g1 = margins g \<and>
           (\<forall>r c. alive g1 r c \<longleftrightarrow>
              (if r = row x \<and> c = col x then state x else alive g r c))"
proof -
  let ?k = "nat (row x)" and ?m = "nat (col x)"
  have R: "rowCount g = int (length (rows g))" by (rule wf_gridD(7) [OF wf])
  have k: "?k < length (rows g)" using x R by simp
  have len: "int (length (rows g ! ?k)) = colCount g" by (rule wf_gridD(9) [OF wf k])
  have m: "?m < length (rows g ! ?k)" using x len by simp
  let ?g1 = "g\<lparr>rows := (rows g)[?k := (rows g ! ?k)[?m := state x]]\<rparr>"
  have get: "py_get (rows g) (row x) = Inr (rows g ! ?k)"
    using x k by (simp add: py_get_nth)
  have set1: "py_set (rows g ! ?k) (col x) (state x) = Inr ((rows g ! ?k)[?m := state x])"
    using x m by (simp add: py_set_def py_index_def)
  have set2: "py_set (rows g) (row x) ((rows g ! ?k)[?m := state x]) =
      Inr ((rows g)[?k := (rows g ! ?k)[?m := state x]])"
    using x k by (simp add: py_set_def py_index_def)
  have run: "setPoint x g = Inr ?g1"
    by (simp add: setPoint_def get set1 set2)
  from setPoint_wf [OF wf run] have wf1: "wf_grid ?g1" and e1: "extent ?g1 = extent g"
    and m1: "margins ?g1 = margins g" by simp_all
  have cells: "alive ?g1 r c \<longleftrightarrow> (if r = row x \<and> c = col x then state x else alive g r c)"
    for r c
  proof (cases "0 \<le> r \<and> r < rowCount g \<and> 0 \<le> c \<and> c < colCount g")
    case False
    then have "\<not> alive g r c" "\<not> alive ?g1 r c"
      using alive_wf [OF wf, of r c] alive_wf [OF wf1, of r c] e1
      by (auto simp: rowCount_def colCount_def)
    moreover have "\<not> (r = row x \<and> c = col x)" using False x by auto
    ultimately show ?thesis by auto
  next
    case True
    then have rk: "nat r < length (rows g)" using R by linarith
    have cl: "nat c < length (rows g ! nat r)"
      using True wf_gridD(9) [OF wf rk] by linarith
    have "rows ?g1 ! nat r ! nat c =
            (if nat r = ?k \<and> nat c = ?m then state x else rows g ! nat r ! nat c)"
      using rk cl k m by (simp add: nth_list_update)
    moreover have "nat r = ?k \<longleftrightarrow> r = row x" "nat c = ?m \<longleftrightarrow> c = col x"
      using True x by auto
    ultimately show ?thesis
      using True alive_wf [OF wf, of r c] alive_wf [OF wf1, of r c] e1
      by (simp add: rowCount_def colCount_def)
  qed
  from run wf1 e1 m1 cells show ?thesis by blast
qed

lemma setPoints_inside:
  assumes "wf_grid g"
    and "\<forall>p \<in> set pts. 0 \<le> row p \<and> row p < rowCount g \<and> 0 \<le> col p \<and> col p < colCount g"
  shows "\<exists>g1. forEach pts setPoint g = Inr g1 \<and> wf_grid g1 \<and> extent g1 = extent g \<and>
           margins g1 = margins g \<and>
           (\<forall>r c. alive g1 r c \<longleftrightarrow> written pts r c (alive g r c))"
  using assms
proof (induction pts arbitrary: g)
  case Nil
  then show ?case by (simp add: written_def)
next
  case (Cons x pts)
  have "0 \<le> row x" "row x < rowCount g" "0 \<le> col x" "col x < colCount g"
    using Cons.prems(2) by simp_all
  from setPoint_inside [OF Cons.prems(1) this] obtain g1 where
    g1: "setPoint x g = Inr g1" "wf_grid g1" "extent g1 = extent g" "margins g1 = margins g"
      "\<forall>r c. alive g1 r c \<longleftrightarrow> (if r = row x \<and> c = col x then state x else alive g r c)"
    by blast
  have "\<forall>p \<in> set pts. 0 \<le> row p \<and> row p < rowCount g1 \<and> 0 \<le> col p \<and> col p < colCount g1"
    using Cons.prems(2) g1(3) by (simp add: rowCount_def colCount_def)
  from Cons.IH [OF g1(2) this] obtain g2 where
    g2: "forEach pts setPoint g1 = Inr g2" "wf_grid g2" "extent g2 = extent g1"
      "margins g2 = margins g1" "\<forall>r c. alive g2 r c \<longleftrightarrow> written pts r c (alive g1 r c)"
    by blast
  have "\<forall>r c. alive g2 r c \<longleftrightarrow> written (x # pts) r c (alive g r c)"
    using g2(5) g1(5) by (simp add: written_def)
  with g1 g2 show ?case by simp
qed

lemma written_none:
  "\<forall>p \<in> set pts. \<not> (row p = r \<and> col p = c) \<Longrightarrow> written pts r c old = old"
  unfolding written_def by (induction pts arbitrary: old) auto

lemma written_same:
  assumes "\<forall>p \<in> set pts. row p = r \<and> col p = c \<longrightarrow> state p = v"
    and "\<exists>p \<in> set pts. row p = r \<and> col p = c"
  shows "written pts r c old = v"
  using assms
proof (induction pts arbitrary: old rule: rev_induct)
  case Nil
  then show ?case by simp
next
  case (snoc p pts)
  show ?case
  proof (cases "row p = r \<and> col p = c")
    case True
    with snoc.prems(1) show ?thesis by (simp add: written_def)
  next
    case False
    with snoc.prems have "\<forall>q \<in> set pts. row q = r \<and> col q = c \<longrightarrow> state q = v"
      "\<exists>q \<in> set pts. row q = r \<and> col q = c" by auto
    from snoc.IH [OF this] False show ?thesis by (auto simp: written_def)
  qed
qed

lemma lifeRule_transitionFor:
  "lifeRule a n = (case transitionFor a n r c of [] \<Rightarrow> a | p # ps \<Rightarrow> state p)"
  by (auto simp: lifeRule_def transitionFor_def)

lemma transitions_written:
  assumes rc: "0 \<le> r" "r < rowCount g" "0 \<le> c" "c < colCount g"
  shows "written (transitionsOf g) r c (alive g r c) = lifeRule (alive g r c) (codeCount g r c)"
proof -
  let ?t = "transitionFor (alive g r c) (codeCount g r c) r c"
  have here: "p \<in> set (transitionsOf g) \<and> row p = r \<and> col p = c \<longleftrightarrow> p \<in> set ?t" for p
    using rc in_transitionsOf [of p g] transitionFor_point [of p "alive g r c" "codeCount g r c" r c]
    by auto
  show ?thesis
  proof (cases ?t)
    case Nil
    then have "\<forall>p \<in> set (transitionsOf g). \<not> (row p = r \<and> col p = c)"
      using here by auto
    from written_none [OF this] Nil show ?thesis
      by (simp add: lifeRule_transitionFor [of _ _ r c])
  next
    case (Cons q qs)
    then have one: "?t = [q]" by (auto simp: transitionFor_def split: if_splits)
    have only: "p \<in> set (transitionsOf g) \<and> row p = r \<and> col p = c \<longleftrightarrow> p = q" for p
      using here [of p] one by simp
    have "\<forall>p \<in> set (transitionsOf g). row p = r \<and> col p = c \<longrightarrow> state p = state q"
    proof (intro ballI impI)
      fix p assume "p \<in> set (transitionsOf g)" "row p = r \<and> col p = c"
      with only [of p] have "p = q" by simp
      then show "state p = state q" by simp
    qed
    moreover have "\<exists>p \<in> set (transitionsOf g). row p = r \<and> col p = c"
      using only [of q] by blast
    ultimately have "written (transitionsOf g) r c (alive g r c) = state q"
      by (rule written_same)
    with one show ?thesis
      by (simp add: lifeRule_transitionFor [of _ _ r c])
  qed
qed

text \<open>Writing the collected transitions into the grid gives every cell of the extent the
  state that the rule prescribes for it.\<close>

lemma transitions_applied:
  assumes wf: "wf_grid g"
  shows "\<exists>g1. forEach (transitionsOf g) setPoint g = Inr g1 \<and> wf_grid g1 \<and>
           extent g1 = extent g \<and> margins g1 = margins g \<and>
           (\<forall>r c. alive g1 r c \<longleftrightarrow>
              0 \<le> r \<and> r < rowCount g \<and> 0 \<le> c \<and> c < colCount g \<and>
              lifeRule (alive g r c) (codeCount g r c))"
proof -
  have inside: "\<forall>p \<in> set (transitionsOf g).
      0 \<le> row p \<and> row p < rowCount g \<and> 0 \<le> col p \<and> col p < colCount g"
    using in_transitionsOf [of _ g] by blast
  from setPoints_inside [OF wf inside] obtain g1 where
    g1: "forEach (transitionsOf g) setPoint g = Inr g1" "wf_grid g1" "extent g1 = extent g"
      "margins g1 = margins g"
      "\<forall>r c. alive g1 r c \<longleftrightarrow> written (transitionsOf g) r c (alive g r c)"
    by blast
  have "alive g1 r c \<longleftrightarrow>
          0 \<le> r \<and> r < rowCount g \<and> 0 \<le> c \<and> c < colCount g \<and>
          lifeRule (alive g r c) (codeCount g r c)" for r c
  proof (cases "0 \<le> r \<and> r < rowCount g \<and> 0 \<le> c \<and> c < colCount g")
    case True
    with transitions_written [of r g c] g1(5) show ?thesis by simp
  next
    case False
    then have "\<not> alive g1 r c"
      using alive_wf [OF g1(2), of r c] g1(3) by (auto simp: rowCount_def colCount_def)
    with False show ?thesis by blast
  qed
  with g1(1-4) show ?thesis by blast
qed

lemma grid_eqI:
  assumes "wf_grid a" "wf_grid b" "extent a = extent b" "margins a = margins b"
    and cells: "\<And>r c. alive a r c \<longleftrightarrow> alive b r c"
  shows "a = b"
proof -
  have R: "length (rows a) = length (rows b)"
    using wf_gridD(7) [OF assms(1)] wf_gridD(7) [OF assms(2)] assms(3)
    by (simp add: rowCount_def)
  have C: "colCount a = colCount b" using assms(3) by (simp add: colCount_def)
  have "rows a = rows b"
  proof (rule nth_equalityI [OF R])
    fix i assume i: "i < length (rows a)"
    then have ib: "i < length (rows b)" using R by simp
    have la: "int (length (rows a ! i)) = colCount a" by (rule wf_gridD(9) [OF assms(1) i])
    have lb: "int (length (rows b ! i)) = colCount b" by (rule wf_gridD(9) [OF assms(2) ib])
    show "rows a ! i = rows b ! i"
    proof (rule nth_equalityI)
      show "length (rows a ! i) = length (rows b ! i)" using la lb C by simp
    next
      fix j assume j: "j < length (rows a ! i)"
      then have jb: "j < length (rows b ! i)" using la lb C by simp
      from cells [of "int i" "int j"] i ib j jb
      show "rows a ! i ! j = rows b ! i ! j" by (simp add: alive_def)
    qed
  qed
  with assms(3,4) show ?thesis by simp
qed

lemma py_range_nth: "0 \<le> i \<Longrightarrow> i < n \<Longrightarrow> py_range n ! nat i = i"
  by (simp add: py_range_def)

lemma nextRows_snapshot:
  assumes wf: "wf_grid g"
  shows "wf_grid (g\<lparr>rows := nextRows g (snapshotCounts g)\<rparr>) \<and>
         (\<forall>r c. alive (g\<lparr>rows := nextRows g (snapshotCounts g)\<rparr>) r c \<longleftrightarrow>
            0 \<le> r \<and> r < rowCount g \<and> 0 \<le> c \<and> c < colCount g \<and>
            lifeRule (alive g r c) (mooreCount g r c))"
proof -
  let ?g = "g\<lparr>rows := nextRows g (snapshotCounts g)\<rparr>"
  have R0: "0 \<le> rowCount g" using wf_gridD(7) [OF wf] by simp
  have C0: "0 \<le> colCount g" by (rule wf_gridD(8) [OF wf])
  have wf': "wf_grid ?g"
    using wf R0 C0
    by (simp add: wf_grid_def nextRows_def rowCount_def colCount_def list_all_iff)
  have cell: "rows ?g ! nat r ! nat c = lifeRule (alive g r c) (mooreCount g r c)"
    if "0 \<le> r" "r < rowCount g" "0 \<le> c" "c < colCount g" for r c
  proof -
    have "snapshotCounts g ! nat r ! nat c = mooreCount g r c"
      using that by (simp add: snapshotCounts_def py_range_nth)
    with that show ?thesis by (simp add: nextRows_def py_range_nth)
  qed
  have "alive ?g r c \<longleftrightarrow>
          0 \<le> r \<and> r < rowCount g \<and> 0 \<le> c \<and> c < colCount g \<and>
          lifeRule (alive g r c) (mooreCount g r c)" for r c
    using alive_wf [OF wf', of r c] cell [of r c]
    by (auto simp: rowCount_def colCount_def)
  with wf' show ?thesis by blast
qed

text \<open>The grid after the writes of a tick is the snapshot with every cell replaced by
  the rule's verdict.\<close>

lemma transitions_applied_snapshot:
  assumes wf: "wf_grid g" and ok: "margin_ok g"
  shows "forEach (transitionsOf g) setPoint g = Inr (g\<lparr>rows := nextRows g (snapshotCounts g)\<rparr>)"
proof -
  from transitions_applied [OF wf] obtain g1 where
    g1: "forEach (transitionsOf g) setPoint g = Inr g1" "wf_grid g1" "extent g1 = extent g"
      "margins g1 = margins g"
      "\<forall>r c. alive g1 r c \<longleftrightarrow>
              0 \<le> r \<and> r < rowCount g \<and> 0 \<le> c \<and> c < colCount g \<and>
              lifeRule (alive g r c) (codeCount g r c)"
    by blast
  let ?g = "g\<lparr>rows := nextRows g (snapshotCounts g)\<rparr>"
  from nextRows_snapshot [OF wf] have wf': "wf_grid ?g"
    and cells: "\<forall>r c. alive ?g r c \<longleftrightarrow>
            0 \<le> r \<and> r < rowCount g \<and> 0 \<le> c \<and> c < colCount g \<and>
            lifeRule (alive g r c) (mooreCount g r c)"
    by simp_all
  have "g1 = ?g"
  proof (rule grid_eqI [OF g1(2) wf'])
    show "extent g1 = extent ?g" using g1(3) by simp
    show "margins g1 = margins ?g" using g1(4) by simp
  next
    fix r c
    show "alive g1 r c \<longleftrightarrow> alive ?g r c"
    proof (cases "0 \<le> r \<and> r < rowCount g \<and> 0 \<le> c \<and> c < colCount g")
      case True
      then have "codeCount g r c = mooreCount g r c"
        using codeCount_mooreCount [OF wf ok, of r c] by simp
      with g1(5) cells show ?thesis by simp
    next
      case False
      with g1(5) cells show ?thesis by blast
    qed
  qed
  with g1(1) show ?thesis by simp
qed

lemma point_in_transitionFor:
  "\<lparr>row = r, col = c, state = s\<rparr> \<in> set (transitionFor a n r c) \<longleftrightarrow>
     (if s then \<not> a \<and> n = 3 else a \<and> \<not> (2 \<le> n \<and> n \<le> 3))"
  by (auto simp: transitionFor_def)

text \<open>
  C1. On a well-formed grid that keeps its margins (as every grid does after
  \<^verbatim>\<open>applyPoints\<close>), the transition list that a tick collects contains a death transition
  exactly for the live cells of the extent whose Moore count is outside \<open>[2, 3]\<close>, a birth
  transition exactly for the dead cells of the extent whose count is 3, and nothing
  else; writing the list into the grid gives every cell of the extent the state that the
  rule of the game prescribes for its pre-tick state and pre-tick count.
\<close>

theorem tick_transitions_follow_rule:
  assumes wf: "wf_grid g" and ok: "margin_ok g"
  shows "\<exists>ts g1. collectTransitions g = Inr ts \<and>
           (\<forall>r c s. \<lparr>row = r, col = c, state = s\<rparr> \<in> set ts \<longleftrightarrow>
              0 \<le> r \<and> r < rowCount g \<and> 0 \<le> c \<and> c < colCount g \<and>
              (if s then \<not> alive g r c \<and> mooreCount g r c = 3
               else alive g r c \<and> \<not> (2 \<le> mooreCount g r c \<and> mooreCount g r c \<le> 3))) \<and>
           forEach ts setPoint g = Inr g1 \<and>
           (\<forall>r c. 0 \<le> r \<and> r < rowCount g \<and> 0 \<le> c \<and> c < colCount g \<longrightarrow>
              alive g1 r c = lifeRule (alive g r c) (mooreCount g r c))"
proof -
  let ?g1 = "g\<lparr>rows := nextRows g (snapshotCounts g)\<rparr>"
  have ts: "collectTransitions g = Inr (transitionsOf g)"
    by (rule collectTransitions_wf [OF wf])
  have mem: "\<lparr>row = r, col = c, state = s\<rparr> \<in> set (transitionsOf g) \<longleftrightarrow>
      0 \<le> r \<and> r < rowCount g \<and> 0 \<le> c \<and> c < colCount g \<and>
      (if s then \<not> alive g r c \<and> mooreCount g r c = 3
       else alive g r c \<and> \<not> (2 \<le> mooreCount g r c \<and> mooreCount g r c \<le> 3))" for r c s
  proof (cases "0 \<le> r \<and> r < rowCount g \<and> 0 \<le> c \<and> c < colCount g")
    case False
    then show ?thesis using in_transitionsOf [of "\<lparr>row = r, col = c, state = s\<rparr>" g] by auto
  next
    case True
    then have "codeCount g r c = mooreCount g r c"
      using codeCount_mooreCount [OF wf ok, of r c] by simp
    with True show ?thesis
      using in_transitionsOf [of "\<lparr>row = r, col = c, state = s\<rparr>" g]
      by (simp add: point_in_transitionFor)
  qed
  have app: "forEach (transitionsOf g) setPoint g = Inr ?g1"
    by (rule transitions_applied_snapshot [OF wf ok])
  have cells: "\<forall>r c. 0 \<le> r \<and> r < rowCount g \<and> 0 \<le> c \<and> c < colCount g \<longrightarrow>
      alive ?g1 r c = lifeRule (alive g r c) (mooreCount g r c)"
    using nextRows_snapshot [OF wf] by simp
  from ts mem app cells show ?thesis by blast
qed

lemma trimDue_nonneg: "0 \<le> tc \<Longrightarrow> trimDue tc \<longleftrightarrow> 0 < tc \<and> 5 dvd tc"
  by (auto simp: trimDue_def dvd_eq_mod_eq_0)

lemma applyPoints_transitions:
  assumes wf: "wf_grid g"
  shows "\<exists>g1 g'. forEach (transitionsOf g) setPoint g = Inr g1 \<and> wf_grid g1 \<and>
           extent g1 = extent g \<and> maintainMargin g1 trim = Inr g' \<and>
           applyPoints g (transitionsOf g) trim = Inr g' \<and>
           wf_grid g' \<and> margins g' = margins g \<and> margin_ok g'"
proof -
  from transitions_applied [OF wf] obtain g1 where
    g1: "forEach (transitionsOf g) setPoint g = Inr g1" "wf_grid g1" "extent g1 = extent g"
      "margins g1 = margins g"
    by blast
  from maintainMargin_margin_ok [OF g1(2), of trim] obtain g' where
    g': "maintainMargin g1 trim = Inr g'" "wf_grid g'" "margins g' = margins g1" "margin_ok g'"
    by blast
  have "applyPoints g (transitionsOf g) trim = Inr g'"
    by (simp add: applyPoints_def g1(1) g'(1))
  with g1 g' show ?thesis by simp
qed

text \<open>
  C8. A tick of a game whose count is not negative (it starts at 0 and only grows)
  collects one transition list from the unchanged grid, makes one \<^verbatim>\<open>applyPoints\<close> call
  with the whole list and with \<open>trimNow\<close> true exactly when the count before the
  increment is a positive multiple of 5, and returns the resulting grid with the count
  increased by 1; when \<open>trimNow\<close> is false neither dimension of the grid gets smaller.
\<close>

theorem tick_applies_once:
  assumes wf: "wf_grid (grid gm)" and tc: "0 \<le> tickCount gm"
  shows "\<exists>ts g'. collectTransitions (grid gm) = Inr ts \<and>
           applyPoints (grid gm) ts (0 < tickCount gm \<and> 5 dvd tickCount gm) = Inr g' \<and>
           tick gm = Inr (gm\<lparr>grid := g', tickCount := tickCount gm + 1\<rparr>) \<and>
           (\<not> (0 < tickCount gm \<and> 5 dvd tickCount gm) \<longrightarrow>
              rowCount (grid gm) \<le> rowCount g' \<and> colCount (grid gm) \<le> colCount g')"
proof -
  let ?g = "grid gm" and ?trim = "0 < tickCount gm \<and> 5 dvd tickCount gm"
  have ts: "collectTransitions ?g = Inr (transitionsOf ?g)"
    by (rule collectTransitions_wf [OF wf])
  from applyPoints_transitions [OF wf, of ?trim] obtain g1 g' where
    g1: "wf_grid g1" "extent g1 = extent ?g" "maintainMargin g1 ?trim = Inr g'"
    and ap: "applyPoints ?g (transitionsOf ?g) ?trim = Inr g'"
    by blast
  have run: "tick gm = Inr (gm\<lparr>grid := g', tickCount := tickCount gm + 1\<rparr>)"
    by (simp add: tick_def ts trimDue_nonneg [OF tc] ap)
  have grow: "\<not> ?trim \<longrightarrow> rowCount ?g \<le> rowCount g' \<and> colCount ?g \<le> colCount g'"
  proof
    assume "\<not> ?trim"
    with g1(3) have "maintainMargin g1 False = Inr g'" by simp
    from maintainMargin_deferred_grows [OF g1(1) this] g1(2)
    show "rowCount ?g \<le> rowCount g' \<and> colCount ?g \<le> colCount g'"
      by (simp add: rowCount_def colCount_def)
  qed
  from ts ap run grow show ?thesis by blast
qed

text \<open>
  C2. On a well-formed grid that keeps its margins, a tick returns, and its result is
  that of the reference tick, which computes every count from a snapshot of the pre-tick
  grid before it changes any cell: the post-tick state is a function of the pre-tick
  one.
\<close>

theorem tick_equals_reference:
  assumes wf: "wf_grid (grid gm)" and ok: "margin_ok (grid gm)"
  shows "tick gm = tick_reference gm \<and> (\<exists>gm'. tick gm = Inr gm')"
proof -
  let ?g = "grid gm"
  have ts: "collectTransitions ?g = Inr (transitionsOf ?g)"
    by (rule collectTransitions_wf [OF wf])
  have app: "forEach (transitionsOf ?g) setPoint ?g =
      Inr (?g\<lparr>rows := nextRows ?g (snapshotCounts ?g)\<rparr>)"
    by (rule transitions_applied_snapshot [OF wf ok])
  have eq: "tick gm = tick_reference gm"
    by (simp add: tick_def tick_reference_def ts applyPoints_def app Let_def)
  from applyPoints_transitions [OF wf, of "trimDue (tickCount gm)"] obtain g' where
    "applyPoints ?g (transitionsOf ?g) (trimDue (tickCount gm)) = Inr g'" by blast
  then have "tick gm = Inr (gm\<lparr>grid := g', tickCount := tickCount gm + 1\<rparr>)"
    by (simp add: tick_def ts)
  with eq show ?thesis by blast
qed

section \<open>The grid invariant along a game\<close>

lemma applyPoints_ok:
  assumes wf: "wf_grid g" and run: "applyPoints g pts trim = Inr g'"
  shows "wf_grid g' \<and> margin_ok g' \<and> margins g' = margins g"
proof -
  from run obtain g1 where
    g1: "forEach pts setPoint g = Inr g1" and mm: "maintainMargin g1 trim = Inr g'"
    by (auto simp: applyPoints_def bindE_eq_Inr)
  from setPoints_wf [OF wf g1] have wf1: "wf_grid g1" and m1: "margins g1 = margins g"
    by simp_all
  from maintainMargin_margin_ok [OF wf1, of trim] mm m1 show ?thesis by auto
qed

lemma Grid_init_wf:
  assumes "length ext = 2" "length mrg = 4" and run: "Grid_init gridType ext mrg = Inr g"
  shows "wf_grid g"
proof -
  have small: "extentsTooSmall ext mrg =
      Inr (ext ! 0 < mrg ! 0 + mrg ! 2 \<or> ext ! 1 < mrg ! 1 + mrg ! 3)"
    by (rule extentsTooSmall_shape [OF assms(1,2)])
  from run have m: "\<not> list_ex (\<lambda>x. x < 1) mrg"
    and big: "\<not> (ext ! 0 < mrg ! 0 + mrg ! 2 \<or> ext ! 1 < mrg ! 1 + mrg ! 3)"
    and g: "g = \<lparr>rows = map (\<lambda>i. replicate (nat (ext ! 1)) False) (py_range (ext ! 0)),
                 extent = ext, margins = mrg\<rparr>"
    using assms(1,2) by (auto simp: Grid_init_def small split: if_splits)
  from m have m1: "list_all (\<lambda>m. 1 \<le> m) mrg"
    by (auto simp: list_ex_iff list_all_iff not_less)
  then have "1 \<le> mrg ! 0" "1 \<le> mrg ! 1" "1 \<le> mrg ! 2" "1 \<le> mrg ! 3"
    using assms(2) by (simp_all add: list_all_length)
  with big have "0 \<le> ext ! 0" "0 \<le> ext ! 1" by linarith+
  then show ?thesis
    using assms(1,2) m1
    by (simp add: g wf_grid_def rowCount_def colCount_def list_all_iff)
qed

lemma seedPattern_ok:
  assumes "wf_grid g" "seedPattern g pat loc = Inr g'"
  shows "wf_grid g' \<and> margin_ok g'"
proof -
  from assms(2) obtain pts where "applyPoints g pts False = Inr g'"
    by (auto simp: seedPattern_def Let_def bindE_eq_Inr split: if_splits)
  from applyPoints_ok [OF assms(1) this] show ?thesis by simp
qed

lemma GameOfLife_init_ok:
  assumes "length ext = 2" "length mrg = 4" and run: "GameOfLife_init ext mrg pat = Inr gm"
  shows "wf_grid (grid gm) \<and> margin_ok (grid gm) \<and> tickCount gm = 0"
proof -
  from run obtain g0 g where g0: "Grid_init ''inf'' ext mrg = Inr g0"
    and g: "seedPattern g0 pat ''center'' = Inr g" and gm: "gm = \<lparr>grid = g, tickCount = 0\<rparr>"
    by (auto simp: GameOfLife_init_def bindE_eq_Inr)
  from seedPattern_ok [OF Grid_init_wf [OF assms(1,2) g0] g] gm show ?thesis by simp
qed

lemma tick_ok:
  assumes wf: "wf_grid (grid gm)"
  shows "\<exists>gm'. tick gm = Inr gm' \<and> wf_grid (grid gm') \<and> margin_ok (grid gm') \<and>
           tickCount gm' = tickCount gm + 1"
proof -
  from applyPoints_transitions [OF wf, of "trimDue (tickCount gm)"] obtain g' where
    ap: "applyPoints (grid gm) (transitionsOf (grid gm)) (trimDue (tickCount gm)) = Inr g'"
    and g': "wf_grid g'" "margin_ok g'"
    by blast
  have "tick gm = Inr (gm\<lparr>grid := g', tickCount := tickCount gm + 1\<rparr>)"
    by (simp add: tick_def collectTransitions_wf [OF wf] ap)
  with g' show ?thesis by simp
qed

theorem tick_transitions_follow_rule_witness:
  "wf_grid \<lparr>rows = [replicate 6 False, replicate 6 False,
                     [False, False, True, True, True, False],
                     replicate 6 False, replicate 6 False],
            extent = [5, 6], margins = [1, 1, 1, 1]\<rparr> \<and>
   margin_ok \<lparr>rows = [replicate 6 False, replicate 6 False,
                     [False, False, True, True, True, False],
                     replicate 6 False, replicate 6 False],
            extent = [5, 6], margins = [1, 1, 1, 1]\<rparr> \<and>
   collectTransitions \<lparr>rows = [replicate 6 False, replicate 6 False,
                     [False, False, True, True, True, False],
                     replicate 6 False, replicate 6 False],
            extent = [5, 6], margins = [1, 1, 1, 1]\<rparr> =
     Inr [\<lparr>row = 1, col = 3, state = True\<rparr>, \<lparr>row = 2, col = 2, state = False\<rparr>,
          \<lparr>row = 2, col = 4, state = False\<rparr>, \<lparr>row = 3, col = 3, state = True\<rparr>] \<and>
   mooreCount \<lparr>rows = [replicate 6 False, replicate 6 False,
                     [False, False, True, True, True, False],
                     replicate 6 False, replicate 6 False],
            extent = [5, 6], margins = [1, 1, 1, 1]\<rparr> 1 3 = 3"
proof -
  let ?g = "\<lparr>rows = [replicate 6 False, replicate 6 False,
                     [False, False, True, True, True, False],
                     replicate 6 False, replicate 6 False],
            extent = [5, 6], margins = [1, 1, 1, 1]\<rparr>"
  have wf: "wf_grid ?g" by code_simp
  have "maintainMargin ?g False = Inr ?g" by code_simp
  with maintainMargin_margin_ok [OF wf, of False] have ok: "margin_ok ?g" by auto
  have ts: "collectTransitions ?g =
     Inr [\<lparr>row = 1, col = 3, state = True\<rparr>, \<lparr>row = 2, col = 2, state = False\<rparr>,
          \<lparr>row = 2, col = 4, state = False\<rparr>, \<lparr>row = 3, col = 3, state = True\<rparr>]"
    by code_simp
  from tick_transitions_follow_rule [OF wf ok] obtain ts' where
    a: "collectTransitions ?g = Inr ts'"
    and b: "\<forall>r c s. \<lparr>row = r, col = c, state = s\<rparr> \<in> set ts' \<longleftrightarrow>
              0 \<le> r \<and> r < rowCount ?g \<and> 0 \<le> c \<and> c < colCount ?g \<and>
              (if s then \<not> alive ?g r c \<and> mooreCount ?g r c = 3
               else alive ?g r c \<and> \<not> (2 \<le> mooreCount ?g r c \<and> mooreCount ?g r c \<le> 3))"
    by (elim exE conjE)
  from a ts have "ts' = [\<lparr>row = 1, col = 3, state = True\<rparr>,
      \<lparr>row = 2, col = 2, state = False\<rparr>, \<lparr>row = 2, col = 4, state = False\<rparr>,
      \<lparr>row = 3, col = 3, state = True\<rparr>]" by simp
  then have "\<lparr>row = 1, col = 3, state = True\<rparr> \<in> set ts'" by simp
  with b have "0 \<le> (1::int) \<and> 1 < rowCount ?g \<and> 0 \<le> (3::int) \<and> 3 < colCount ?g \<and>
      (if True then \<not> alive ?g 1 3 \<and> mooreCount ?g 1 3 = 3
       else alive ?g 1 3 \<and> \<not> (2 \<le> mooreCount ?g 1 3 \<and> mooreCount ?g 1 3 \<le> 3))"
    by blast
  then have "mooreCount ?g 1 3 = 3" by simp
  with wf ok ts show ?thesis by simp
qed

theorem tick_applies_once_witness:
  "wf_grid (grid \<lparr>grid = \<lparr>rows = [replicate 6 False, replicate 6 False,
                     [False, False, True, True, True, False],
                     replicate 6 False, replicate 6 False],
            extent = [5, 6], margins = [1, 1, 1, 1]\<rparr>, tickCount = 0\<rparr>) \<and>
   tick \<lparr>grid = \<lparr>rows = [replicate 6 False, replicate 6 False,
                     [False, False, True, True, True, False],
                     replicate 6 False, replicate 6 False],
            extent = [5, 6], margins = [1, 1, 1, 1]\<rparr>, tickCount = 0\<rparr> =
     Inr \<lparr>grid = \<lparr>rows = [replicate 6 False,
                     [False, False, False, True, False, False],
                     [False, False, False, True, False, False],
                     [False, False, False, True, False, False],
                     replicate 6 False],
            extent = [5, 6], margins = [1, 1, 1, 1]\<rparr>, tickCount = 1\<rparr>"
proof -
  let ?g = "\<lparr>rows = [replicate 6 False, replicate 6 False,
                     [False, False, True, True, True, False],
                     replicate 6 False, replicate 6 False],
            extent = [5, 6], margins = [1, 1, 1, 1]\<rparr>"
  let ?gm = "\<lparr>grid = ?g, tickCount = 0\<rparr>"
  have wf: "wf_grid (grid ?gm)" by code_simp
  have tc: "0 \<le> tickCount ?gm" by simp
  from tick_applies_once [OF wf tc] obtain ts g' where
    ts: "collectTransitions (grid ?gm) = Inr ts"
    and ap: "applyPoints (grid ?gm) ts (0 < tickCount ?gm \<and> 5 dvd tickCount ?gm) = Inr g'"
    and run: "tick ?gm = Inr (?gm\<lparr>grid := g', tickCount := tickCount ?gm + 1\<rparr>)"
    by blast
  have "collectTransitions ?g =
     Inr [\<lparr>row = 1, col = 3, state = True\<rparr>, \<lparr>row = 2, col = 2, state = False\<rparr>,
          \<lparr>row = 2, col = 4, state = False\<rparr>, \<lparr>row = 3, col = 3, state = True\<rparr>]"
    by code_simp
  with ts have ts': "ts = [\<lparr>row = 1, col = 3, state = True\<rparr>, \<lparr>row = 2, col = 2, state = False\<rparr>,
          \<lparr>row = 2, col = 4, state = False\<rparr>, \<lparr>row = 3, col = 3, state = True\<rparr>]"
    by simp
  have "applyPoints ?g [\<lparr>row = 1, col = 3, state = True\<rparr>, \<lparr>row = 2, col = 2, state = False\<rparr>,
          \<lparr>row = 2, col = 4, state = False\<rparr>, \<lparr>row = 3, col = 3, state = True\<rparr>] False =
        Inr \<lparr>rows = [replicate 6 False,
                     [False, False, False, True, False, False],
                     [False, False, False, True, False, False],
                     [False, False, False, True, False, False],
                     replicate 6 False],
            extent = [5, 6], margins = [1, 1, 1, 1]\<rparr>"
    by code_simp
  with ap ts' have "g' = \<lparr>rows = [replicate 6 False,
                     [False, False, False, True, False, False],
                     [False, False, False, True, False, False],
                     [False, False, False, True, False, False],
                     replicate 6 False],
            extent = [5, 6], margins = [1, 1, 1, 1]\<rparr>"
    by simp
  with run wf show ?thesis by simp
qed

theorem tick_equals_reference_witness:
  "wf_grid (grid \<lparr>grid = \<lparr>rows = [replicate 6 False, replicate 6 False,
                     [False, False, True, True, True, False],
                     replicate 6 False, replicate 6 False],
            extent = [5, 6], margins = [1, 1, 1, 1]\<rparr>, tickCount = 0\<rparr>) \<and>
   margin_ok (grid \<lparr>grid = \<lparr>rows = [replicate 6 False, replicate 6 False,
                     [False, False, True, True, True, False],
                     replicate 6 False, replicate 6 False],
            extent = [5, 6], margins = [1, 1, 1, 1]\<rparr>, tickCount = 0\<rparr>) \<and>
   tick_reference \<lparr>grid = \<lparr>rows = [replicate 6 False, replicate 6 False,
                     [False, False, True, True, True, False],
                     replicate 6 False, replicate 6 False],
            extent = [5, 6], margins = [1, 1, 1, 1]\<rparr>, tickCount = 0\<rparr> =
     Inr \<lparr>grid = \<lparr>rows = [replicate 6 False,
                     [False, False, False, True, False, False],
                     [False, False, False, True, False, False],
                     [False, False, False, True, False, False],
                     replicate 6 False],
            extent = [5, 6], margins = [1, 1, 1, 1]\<rparr>, tickCount = 1\<rparr>"
proof -
  let ?g = "\<lparr>rows = [replicate 6 False, replicate 6 False,
                     [False, False, True, True, True, False],
                     replicate 6 False, replicate 6 False],
            extent = [5, 6], margins = [1, 1, 1, 1]\<rparr>"
  let ?gm = "\<lparr>grid = ?g, tickCount = 0\<rparr>"
  have wf0: "wf_grid ?g" by code_simp
  then have wf: "wf_grid (grid ?gm)" by simp
  have "maintainMargin ?g False = Inr ?g" by code_simp
  with maintainMargin_margin_ok [OF wf0, of False] have "margin_ok ?g" by auto
  then have ok: "margin_ok (grid ?gm)" by simp
  have "tick ?gm = Inr \<lparr>grid = \<lparr>rows = [replicate 6 False,
                     [False, False, False, True, False, False],
                     [False, False, False, True, False, False],
                     [False, False, False, True, False, False],
                     replicate 6 False],
            extent = [5, 6], margins = [1, 1, 1, 1]\<rparr>, tickCount = 1\<rparr>"
    by code_simp
  with tick_equals_reference [OF wf ok] wf ok show ?thesis by simp
qed

end
